theory Spec2Isabelle
  imports Main "HOL-Library.Word"
begin

section \<open>Continuation freeze/thaw (continuationFreezeThaw.cpp)\<close>

text \<open>
  A shallow embedding of the freeze and thaw engines of
  \<^verbatim>\<open>src/hotspot/share/runtime/continuationFreezeThaw.cpp\<close>.

  Conventions.
  \<^item> A C \<^verbatim>\<open>int\<close> (\<^verbatim>\<open>sp\<close>, \<^verbatim>\<open>argsize\<close>, \<^verbatim>\<open>max_size\<close>, sizes in words) is an
    \<open>int\<close>; signed overflow is undefined in C++ and the sizes are bounded by the size
    of a thread stack, so no wrap-around is modelled.
  \<^item> An \<^verbatim>\<open>intptr_t*\<close> into the thread stack is an \<open>int\<close> counting words; a position
    inside a chunk is the word offset from \<^verbatim>\<open>start_address()\<close>.
  \<^item> A stack word (\<^verbatim>\<open>intptr_t\<close>, \<^verbatim>\<open>address\<close>) is a \<open>64 word\<close>; \<^verbatim>\<open>nullptr\<close> is \<open>0\<close>.
  \<^item> Heap objects are referenced by their index in \<open>heap\<close>; a null reference is
    \<open>None\<close>.  Dereferencing a null or dangling reference is undefined behaviour of
    the source and the value \<open>None\<close> of the model.
\<close>

subsection \<open>Data model\<close>

type_synonym word64 = "64 word"
type_synonym memory = "int \<Rightarrow> word64"

text \<open>\<^verbatim>\<open>enum freeze_result\<close> and \<^verbatim>\<open>enum thaw_kind\<close>.\<close>

datatype freeze_result =
    freeze_ok
  | freeze_ok_bottom
  | freeze_pinned_cs
  | freeze_pinned_native
  | freeze_pinned_monitor
  | freeze_exception

fun freeze_result_code :: "freeze_result \<Rightarrow> int" where
  "freeze_result_code freeze_ok = 0"
| "freeze_result_code freeze_ok_bottom = 1"
| "freeze_result_code freeze_pinned_cs = 2"
| "freeze_result_code freeze_pinned_native = 3"
| "freeze_result_code freeze_pinned_monitor = 4"
| "freeze_result_code freeze_exception = 5"

datatype thaw_kind = thaw_top | thaw_return_barrier | thaw_exception

text \<open>
  The stack chunk object (\<^verbatim>\<open>stackChunkOopDesc\<close>): the header fields the engines
  read and write, the three flag bits, the collector's answer to
  \<^verbatim>\<open>requires_barriers()\<close>, the oop bitmap (one bit per word), and the inline word array.
\<close>

record stackChunk =
  stack_size :: int
  sp :: int
  argsize :: int
  max_size :: int
  pc :: word64
  parent :: "nat option"
  has_mixed_frames :: bool
  is_gc_mode :: bool
  has_bitmap :: bool
  requires_barriers :: bool
  bitmap :: "int \<Rightarrow> bool"
  mem :: memory

text \<open>
  A frame descriptor (\<^verbatim>\<open>class frame\<close>, with what \<^verbatim>\<open>ContinuationHelper\<close> and the code
  blob of its pc report about it).  The same descriptor serves for frames on the thread
  stack, where \<open>f_sp\<close> is a stack address, and for heap frames, where it is an offset
  into the chunk.
\<close>

datatype frame_kind = Compiled | Interpreted | Stub | Other

record frame =
  f_kind :: frame_kind
  f_empty :: bool
  f_sp :: int
  f_unextended_sp :: int
  f_fp :: int
  f_pc :: word64
  f_raw_pc :: word64
  f_has_oop_map :: bool
  f_owning_locks :: bool
  f_method_is_native :: bool
  f_frame_bottom :: int
  f_stack_argsize :: int
  f_max_locals :: int
  f_cb_frame_size :: int
  f_return_pc_interpreted :: bool
  f_safepoint_blob :: bool
  f_deoptimized :: bool
  f_marked_for_deoptimization :: bool

text \<open>The default-constructed \<^verbatim>\<open>frame\<close>.\<close>

definition empty_frame :: frame where
  "empty_frame =
     \<lparr>f_kind = Other, f_empty = True, f_sp = 0, f_unextended_sp = 0, f_fp = 0, f_pc = 0,
      f_raw_pc = 0, f_has_oop_map = False, f_owning_locks = False,
      f_method_is_native = False, f_frame_bottom = 0, f_stack_argsize = 0,
      f_max_locals = 0, f_cb_frame_size = 0, f_return_pc_interpreted = False,
      f_safepoint_blob = False, f_deoptimized = False,
      f_marked_for_deoptimization = False\<rparr>"

text \<open>What one call of the chunk allocator does (the collaborator of \<^verbatim>\<open>allocate_chunk\<close>).\<close>

datatype alloc_outcome =
    Alloc_TLAB
  | Alloc_Slow (safepoint_clears_fastpath: bool) (new_requires_barriers: bool)
  | Alloc_OOME

text \<open>
  Platform constants and hooks (\<^verbatim>\<open>frame::\<close>, \<^verbatim>\<open>ContinuationHelper::\<close>, \<^verbatim>\<open>StubRoutines::\<close>,
  the \<^verbatim>\<open>_pd\<close> functions), VM flags and the collaborators' answers (allocator, code
  cache, interpreter, collector, the mixed-mode chunk frame stream).  Their code is not
  part of the file under verification, so they are parameters of every operation.
  \<open>chunk_frames\<close> lists the frames of a chunk as
  \<^verbatim>\<open>StackChunkFrameStream<ChunkFrames::Mixed>\<close> enumerates them, topmost first;
  \<open>c_stack_at d\<close> is the address of the local variable that
  \<^verbatim>\<open>FreezeBase::stack_overflow\<close> compares with the overflow limit, at recursion depth \<open>d\<close>.
\<close>

record platform =
  metadata_words :: int
  sender_sp_ret_address_offset :: int
  align_wiggle :: int
  frame_alignment :: int
  LogBytesPerWord :: nat
  frame_align_words :: "int \<Rightarrow> int"
  frame_align_pointer :: "int \<Rightarrow> int"
  patch_stack_pd :: "int \<Rightarrow> int \<Rightarrow> memory \<Rightarrow> memory \<Rightarrow> memory"
  cont_returnBarrier :: word64
  vm_page_size :: int
  UseContinuationFastPath :: bool
  UseZGC :: bool
  PreserveFramePointer :: bool
  stack_chunk_max_size :: int
  instance_size :: "int \<Rightarrow> int"
  allocator :: "nat \<Rightarrow> alloc_outcome"
  cb_frame_size :: "word64 \<Rightarrow> int"
  cb_stack_argsize :: "word64 \<Rightarrow> int"
  interpreter_contains :: "word64 \<Rightarrow> bool"
  chunk_frames :: "stackChunk \<Rightarrow> frame list"
  c_stack_at :: "nat \<Rightarrow> int"
  frame_top :: "frame_kind \<Rightarrow> frame \<Rightarrow> int \<Rightarrow> bool \<Rightarrow> int"
  adjust_interpreted_frame_unextended_sp :: "frame \<Rightarrow> frame"
  new_heap_frame :: "frame_kind \<Rightarrow> frame \<Rightarrow> frame \<Rightarrow> frame \<times> frame"
  relativize_interpreted_frame_metadata :: "frame \<Rightarrow> frame \<Rightarrow> memory \<Rightarrow> memory"
  patch_pc :: "frame \<Rightarrow> word64 \<Rightarrow> memory \<Rightarrow> memory"
  patch_pd :: "frame \<Rightarrow> frame \<Rightarrow> memory \<Rightarrow> memory"
  patch_sender_sp :: "frame \<Rightarrow> int \<Rightarrow> memory \<Rightarrow> memory"
  set_top_frame_metadata_pd :: "frame \<Rightarrow> memory \<Rightarrow> memory"
  do_barriers :: "stackChunk \<Rightarrow> memory"
  do_barriers_frame :: "frame \<Rightarrow> stackChunk \<Rightarrow> memory"
  new_entry_frame :: "int \<Rightarrow> word64 \<Rightarrow> frame"
  new_stack_frame :: "frame_kind \<Rightarrow> frame \<Rightarrow> frame \<Rightarrow> bool \<Rightarrow> frame \<times> frame"
  set_interpreter_frame_bottom :: "frame \<Rightarrow> int \<Rightarrow> memory \<Rightarrow> memory"
  derelativize_interpreted_frame_metadata :: "frame \<Rightarrow> frame \<Rightarrow> memory \<Rightarrow> memory"
  deoptimize :: "frame \<Rightarrow> memory \<Rightarrow> frame \<times> memory"
  fix_thawed_frame :: "stackChunk \<Rightarrow> frame \<Rightarrow> memory \<Rightarrow> memory"
  push_pd :: "frame \<Rightarrow> memory \<Rightarrow> memory"
  real_fp :: "frame \<Rightarrow> int"

text \<open>
  The state the engines run on: the heap of chunk objects, the continuation object's
  published \<^verbatim>\<open>tail\<close>, the \<^verbatim>\<open>ContinuationWrapper\<close>'s local tail, the
  \<^verbatim>\<open>ContinuationEntry\<close> on the stack, the thread's stack words and flags, the frame
  anchor, and the members of the \<^verbatim>\<open>Freeze\<close>/\<^verbatim>\<open>Thaw\<close> object (\<^verbatim>\<open>_barriers\<close>,
  \<^verbatim>\<open>_preempt\<close>, \<^verbatim>\<open>_bottom_address\<close>, \<^verbatim>\<open>_size\<close>, \<^verbatim>\<open>_align_size\<close>, \<^verbatim>\<open>_fastpath\<close>,
  \<^verbatim>\<open>_top_unextended_sp\<close>).  \<open>cont_fastpath\<close> is the value of
  \<^verbatim>\<open>JavaThread::cont_fastpath()\<close>; \<open>is_preempted\<close> that of \<^verbatim>\<open>_cont.is_preempted()\<close>.
\<close>

record vm =
  heap :: "stackChunk list"
  cont_tail :: "nat option"
  w_tail :: "nat option"
  entrySP :: int
  entryPC :: word64
  entry_argsize :: int
  entry_pinned :: bool
  is_preempted :: bool
  stack :: memory
  cont_fastpath :: bool
  cont_fastpath_thread_state :: bool
  held_monitor_count :: int
  has_pending_exception :: bool
  is_interp_only_mode :: bool
  stack_overflow_limit :: int
  last_Java_sp :: int
  last_Java_pc :: word64
  allocations :: nat
  barriers :: bool
  preempt :: bool
  bottom_address :: int
  fr_size :: int
  fr_align_size :: int
  th_fastpath :: int
  top_unextended_sp :: int

subsection \<open>Chunk and wrapper accessors\<close>

definition deref :: "vm \<Rightarrow> nat option \<Rightarrow> stackChunk option" where
  "deref s r = (case r of None \<Rightarrow> None
                | Some i \<Rightarrow> if i < length (heap s) then Some (heap s ! i) else None)"

definition store :: "nat \<Rightarrow> stackChunk \<Rightarrow> vm \<Rightarrow> vm" where
  "store i c s = s\<lparr>heap := (heap s)[i := c]\<rparr>"

text \<open>
  Modelled from the spec: \<^verbatim>\<open>stackChunkOopDesc::is_empty()\<close> is declared outside the
  file; the data model says ``when \<^verbatim>\<open>sp == stack_size\<close> the chunk is empty''.
\<close>

definition is_empty :: "stackChunk \<Rightarrow> bool" where
  "is_empty c = (sp c = stack_size c)"

text \<open>
  Modelled from the spec: \<^verbatim>\<open>ContinuationWrapper::write()\<close> commits the pending tail to
  the continuation object in a single step.
\<close>

definition cont_write :: "vm \<Rightarrow> vm" where
  "cont_write s = s\<lparr>cont_tail := w_tail s\<rparr>"

text \<open>
  Modelled from the spec: \<^verbatim>\<open>ContinuationWrapper::last_nonempty_chunk()\<close>, the tail, or
  its parent when the tail is an empty chunk kept for reuse.
\<close>

definition last_nonempty_chunk :: "vm \<Rightarrow> nat option" where
  "last_nonempty_chunk s =
     (case deref s (w_tail s) of None \<Rightarrow> None
      | Some c \<Rightarrow> if is_empty c then parent c else w_tail s)"

definition cont_is_empty :: "vm \<Rightarrow> bool" where
  "cont_is_empty s = (last_nonempty_chunk s = None)"

text \<open>
  Modelled from the spec: \<^verbatim>\<open>copy_from_stack_to_chunk\<close> and \<^verbatim>\<open>copy_from_chunk_to_stack\<close>
  bulk-copy \<open>n\<close> words between the thread stack and the chunk's word array.
\<close>

definition copy_words :: "memory \<Rightarrow> int \<Rightarrow> memory \<Rightarrow> int \<Rightarrow> int \<Rightarrow> memory" where
  "copy_words src from dst to n =
     (\<lambda>i. if to \<le> i \<and> i < to + n then src (from + (i - to)) else dst i)"

subsection \<open>Freeze: fast path\<close>

text \<open>\<^verbatim>\<open>FreezeBase::unwind_frames\<close> with \<^verbatim>\<open>set_anchor_to_entry\<close>.\<close>

definition unwind_frames :: "vm \<Rightarrow> vm" where
  "unwind_frames s = s\<lparr>last_Java_sp := entrySP s, last_Java_pc := entryPC s\<rparr>"

text \<open>
  \<^verbatim>\<open>Freeze::allocate_chunk\<close>.  The fresh object is as the assertions of the source
  describe it: \<^verbatim>\<open>sp == stack_size\<close>, \<^verbatim>\<open>max_size == 0\<close>, \<^verbatim>\<open>pc == nullptr\<close>,
  \<^verbatim>\<open>argsize == 0\<close>, no flags.  The result is the new reference, or \<open>None\<close> for
  \<^verbatim>\<open>nullptr\<close>.
\<close>

definition fresh_chunk :: "int \<Rightarrow> nat option \<Rightarrow> bool \<Rightarrow> stackChunk" where
  "fresh_chunk ssize par rb =
     \<lparr>stack_size = ssize, sp = ssize, argsize = 0, max_size = 0, pc = 0, parent = par,
      has_mixed_frames = False, is_gc_mode = False, has_bitmap = False,
      requires_barriers = rb, bitmap = (\<lambda>_. False), mem = (\<lambda>_. 0)\<rparr>"

definition allocate_chunk :: "platform \<Rightarrow> int \<Rightarrow> vm \<Rightarrow> nat option \<times> vm" where
  "allocate_chunk P ssize s =
     (let size_in_words = instance_size P ssize in
      if stack_chunk_max_size P > 0 \<and> size_in_words \<ge> stack_chunk_max_size P
      then (None, if \<not> preempt s then s\<lparr>has_pending_exception := True\<rparr> else s)
      else
        let s1 = s\<lparr>allocations := Suc (allocations s)\<rparr>;
            r = length (heap s) in
        (case allocator P (allocations s) of
           Alloc_OOME \<Rightarrow> (None, s1\<lparr>has_pending_exception := True\<rparr>)
         | Alloc_TLAB \<Rightarrow>
             (Some r, s1\<lparr>heap := heap s @ [fresh_chunk ssize (last_nonempty_chunk s) False],
                        w_tail := Some r\<rparr>)
         | Alloc_Slow clr rb \<Rightarrow>
             (Some r, s1\<lparr>heap := heap s @ [fresh_chunk ssize (last_nonempty_chunk s) rb],
                        cont_fastpath := (cont_fastpath s \<and> \<not> clr),
                        barriers := (\<not> UseZGC P \<and> rb),
                        w_tail := Some r\<rparr>)))"

text \<open>The frozen region of the thread stack, as \<^verbatim>\<open>freeze_fast\<close> computes it.\<close>

definition cont_stack_top :: "platform \<Rightarrow> int \<Rightarrow> int" where
  "cont_stack_top P frame_sp = frame_sp + metadata_words P"

definition cont_stack_bottom :: "platform \<Rightarrow> vm \<Rightarrow> int" where
  "cont_stack_bottom P s = entrySP s - frame_align_words P (entry_argsize s)"

definition cont_size :: "platform \<Rightarrow> vm \<Rightarrow> int \<Rightarrow> int" where
  "cont_size P s frame_sp = cont_stack_bottom P s - cont_stack_top P frame_sp"

text \<open>\<^verbatim>\<open>Freeze::is_chunk_available_for_fast_freeze\<close>.\<close>

definition is_chunk_available_for_fast_freeze :: "platform \<Rightarrow> int \<Rightarrow> vm \<Rightarrow> bool" where
  "is_chunk_available_for_fast_freeze P frame_sp s =
     (case deref s (w_tail s) of
        None \<Rightarrow> False
      | Some chunk \<Rightarrow>
          if is_gc_mode chunk \<or> requires_barriers chunk \<or> has_mixed_frames chunk then False
          else
            let size0 = cont_stack_bottom P s - (frame_sp + metadata_words P);
                chunk_sp = sp chunk;
                sz = (if chunk_sp < stack_size chunk then size0 - entry_argsize s else size0)
            in chunk_sp - metadata_words P \<ge> sz)"

text \<open>
  The common tail of \<^verbatim>\<open>freeze_fast\<close> (from \<^verbatim>\<open>unwind_frames()\<close> to \<^verbatim>\<open>_cont.write()\<close>):
  the bulk copy, the patch of the bottom-most frozen frame's return pc with the chunk's
  previous pc, the new \<^verbatim>\<open>sp\<close> and \<^verbatim>\<open>pc\<close>, and the commit.
\<close>

definition freeze_fast_copy :: "platform \<Rightarrow> int \<Rightarrow> nat \<Rightarrow> stackChunk \<Rightarrow> int \<Rightarrow> vm \<Rightarrow> vm" where
  "freeze_fast_copy P frame_sp r chunk chunk_start_sp s0 =
     (let s = unwind_frames s0;
          csize = cont_size P s frame_sp;
          stack_top = cont_stack_top P frame_sp;
          chunk_new_sp = chunk_start_sp - csize;
          from = stack_top - metadata_words P;
          to = chunk_new_sp - metadata_words P;
          m1 = copy_words (stack s) from (mem chunk) to (csize + metadata_words P);
          chunk_bottom_sp = chunk_new_sp + csize - entry_argsize s;
          m2 = m1(chunk_bottom_sp - sender_sp_ret_address_offset P := pc chunk);
          chunk' = chunk\<lparr>mem := m2, sp := chunk_new_sp,
                         pc := stack s (stack_top - sender_sp_ret_address_offset P)\<rparr>
      in cont_write (store r chunk' s))"

text \<open>
  \<^verbatim>\<open>Freeze::freeze_fast<chunk_available>\<close>.  The result is \<open>None\<close> where the source
  dereferences a null tail.
\<close>

definition freeze_fast :: "platform \<Rightarrow> bool \<Rightarrow> int \<Rightarrow> vm \<Rightarrow> (bool \<times> vm) option" where
  "freeze_fast P chunk_available frame_sp s =
     (let csize = cont_size P s frame_sp in
      if chunk_available then
        (case w_tail s of None \<Rightarrow> None
         | Some r \<Rightarrow>
           (case deref s (Some r) of None \<Rightarrow> None
            | Some chunk \<Rightarrow>
                if sp chunk < stack_size chunk then
                  let chunk_start_sp = sp chunk + entry_argsize s;
                      chunk1 = chunk\<lparr>max_size := max_size chunk + csize - entry_argsize s\<rparr>;
                      bottom_sp = cont_stack_bottom P s - entry_argsize s;
                      s1 = s\<lparr>stack := patch_stack_pd P bottom_sp (sp chunk) (mem chunk) (stack s)\<rparr>
                  in Some (True, freeze_fast_copy P frame_sp r chunk1 chunk_start_sp s1)
                else
                  let chunk_start_sp = sp chunk;
                      chunk1 = chunk\<lparr>max_size := csize, argsize := entry_argsize s\<rparr>
                  in Some (True, freeze_fast_copy P frame_sp r chunk1 chunk_start_sp s)))
      else
        (case allocate_chunk P (csize + metadata_words P) s of
           (None, s1) \<Rightarrow> Some (False, s1)
         | (Some r, s1) \<Rightarrow>
             if \<not> cont_fastpath s1 \<or> barriers s1 then Some (False, s1)
             else
               (case deref s1 (Some r) of None \<Rightarrow> None
                | Some chunk \<Rightarrow>
                    let chunk1 = chunk\<lparr>max_size := csize, argsize := entry_argsize s1\<rparr>;
                        chunk_start_sp = csize + metadata_words P
                    in Some (True, freeze_fast_copy P frame_sp r chunk1 chunk_start_sp s1))))"

subsection \<open>Freeze: slow path\<close>

text \<open>\<^verbatim>\<open>FreezeBase::stack_overflow\<close>: outside a forced preemption the error is thrown.\<close>

definition stack_overflow :: "platform \<Rightarrow> nat \<Rightarrow> vm \<Rightarrow> bool \<times> vm" where
  "stack_overflow P d s =
     (if c_stack_at P d < stack_overflow_limit s
      then (True, if \<not> preempt s then s\<lparr>has_pending_exception := True\<rparr> else s)
      else (False, s))"

text \<open>
  Modelled from the spec: \<^verbatim>\<open>StackChunkFrameStream<ChunkFrames::Mixed>(chunk).to_frame()\<close>,
  the topmost frame of the chunk, or an empty frame at the chunk's \<^verbatim>\<open>sp\<close> when the
  cursor is done.
\<close>

definition stream_to_frame :: "platform \<Rightarrow> stackChunk \<Rightarrow> frame" where
  "stream_to_frame P chunk =
     (case chunk_frames P chunk of
        [] \<Rightarrow> empty_frame\<lparr>f_sp := sp chunk, f_unextended_sp := sp chunk\<rparr>
      | f # _ \<Rightarrow> f)"

text \<open>An update of the wrapper's tail chunk; \<open>None\<close> when the tail is null.\<close>

definition with_tail :: "(stackChunk \<Rightarrow> stackChunk) \<Rightarrow> vm \<Rightarrow> vm option" where
  "with_tail g s =
     (case w_tail s of None \<Rightarrow> None
      | Some r \<Rightarrow> (case deref s (Some r) of None \<Rightarrow> None
                   | Some c \<Rightarrow> Some (store r (g c) s)))"

text \<open>\<^verbatim>\<open>FreezeBase::copy_to_chunk\<close>.\<close>

definition copy_to_chunk :: "int \<Rightarrow> int \<Rightarrow> int \<Rightarrow> vm \<Rightarrow> vm option" where
  "copy_to_chunk from to n s =
     with_tail (\<lambda>c. c\<lparr>mem := copy_words (stack s) from (mem c) to n\<rparr>) s"

text \<open>\<^verbatim>\<open>FreezeBase::patch\<close>.\<close>

definition patch :: "platform \<Rightarrow> frame \<Rightarrow> frame \<Rightarrow> frame \<Rightarrow> bool \<Rightarrow> vm \<Rightarrow> vm option" where
  "patch P f hf caller bottom s =
     with_tail (\<lambda>c.
       let m1 = (if bottom then patch_pc P caller (f_pc caller) (mem c) else mem c);
           m2 = patch_pd P hf caller m1;
           m3 = (if f_kind f = Interpreted
                 then patch_sender_sp P hf (f_unextended_sp caller) m2 else m2)
       in c\<lparr>mem := m3\<rparr>) s"

text \<open>
  The end of \<^verbatim>\<open>FreezeBase::finalize_freeze\<close>, common to the allocated and the reused
  chunk: the mixed-frames flag, the unwinding, the new \<^verbatim>\<open>max_size\<close>, and the caller
  frame handed back to the recursion.
\<close>

definition finalize_freeze_tail ::
  "platform \<Rightarrow> nat \<Rightarrow> stackChunk \<Rightarrow> vm \<Rightarrow> (freeze_result \<times> vm \<times> frame) option" where
  "finalize_freeze_tail P r chunk s =
     (let chunk1 = chunk\<lparr>has_mixed_frames := True\<rparr>;
          s1 = unwind_frames s;
          chunk2 = chunk1\<lparr>max_size := max_size chunk1 + fr_size s1 - metadata_words P\<rparr>
      in Some (freeze_ok_bottom, store r chunk2 s1, stream_to_frame P chunk2))"

text \<open>\<^verbatim>\<open>FreezeBase::finalize_freeze\<close>.\<close>

definition finalize_freeze ::
  "platform \<Rightarrow> frame \<Rightarrow> int \<Rightarrow> vm \<Rightarrow> frame \<Rightarrow> (freeze_result \<times> vm \<times> frame) option" where
  "finalize_freeze P callee asize s0 caller =
     (let s = s0\<lparr>fr_size := fr_size s0 + metadata_words P\<rparr>;
          chunk_opt = deref s (w_tail s);
          (overlap, unextended_sp) =
            (case chunk_opt of
               None \<Rightarrow> (0, - 1)
             | Some chunk \<Rightarrow>
                 if \<not> is_empty chunk then
                   let top_interpreted = interpreter_contains P (pc chunk);
                       lastf = stream_to_frame P chunk;
                       usp = (if top_interpreted
                              then sp chunk + (f_unextended_sp lastf - f_sp lastf)
                              else sp chunk)
                   in (if (f_kind callee = Interpreted) = top_interpreted then asize else 0, usp)
                 else (0, sp chunk));
          s1 = s\<lparr>fr_size := fr_size s - overlap\<rparr>;
          allocate =
            (if unextended_sp < fr_size s1 then Some True
             else (case chunk_opt of
                     None \<Rightarrow> None
                   | Some chunk \<Rightarrow>
                       Some (is_gc_mode chunk \<or> (\<not> barriers s1 \<and> requires_barriers chunk))))
      in case allocate of
           None \<Rightarrow> None
         | Some True \<Rightarrow>
             (let s2 = s1\<lparr>fr_size := fr_size s1 + overlap\<rparr> in
              case allocate_chunk P (fr_size s2) s2 of
                (None, s3) \<Rightarrow> Some (freeze_exception, s3, caller)
              | (Some r, s3) \<Rightarrow>
                  (case deref s3 (Some r) of
                     None \<Rightarrow> None
                   | Some chunk \<Rightarrow>
                       finalize_freeze_tail P r
                         (chunk\<lparr>sp := stack_size chunk - asize, argsize := asize\<rparr>) s3))
         | Some False \<Rightarrow>
             (case (w_tail s1, chunk_opt) of
                (Some r, Some chunk) \<Rightarrow>
                  if is_empty chunk then
                    finalize_freeze_tail P r
                      (chunk\<lparr>sp := stack_size chunk - asize, argsize := asize\<rparr>)
                      (s1\<lparr>fr_size := fr_size s1 + overlap\<rparr>)
                  else finalize_freeze_tail P r chunk s1
              | _ \<Rightarrow> None))"

text \<open>
  \<^verbatim>\<open>FreezeBase::freeze\<close> and the functions it recurses through.  The frames are
  the thread's frames from the one being frozen towards the entry: the sender of a frame
  is the next one in the list, and a walk that leaves the list is \<open>None\<close>.  Each function
  returns the result code, the state, and \<^verbatim>\<open>caller\<close> (passed by reference in the source).

  The functions between two activations of \<^verbatim>\<open>freeze\<close> take the recursive call
  \<^verbatim>\<open>freeze(senderf, caller, argsize, FKind::interpreted, false)\<close> as their last
  argument \<open>rec\<close>, a function of the state, the caller, \<^verbatim>\<open>argsize\<close> and
  \<^verbatim>\<open>FKind::interpreted\<close> at the point of the call.
\<close>

type_synonym freeze_ret = "(freeze_result \<times> vm \<times> frame) option"
type_synonym freeze_rec = "vm \<Rightarrow> frame \<Rightarrow> int \<Rightarrow> bool \<Rightarrow> freeze_ret"

definition recurse_freeze_java_frame ::
  "platform \<Rightarrow> frame_kind \<Rightarrow> frame \<Rightarrow> vm \<Rightarrow> frame \<Rightarrow> int \<Rightarrow> int \<Rightarrow> freeze_rec \<Rightarrow> freeze_ret" where
  "recurse_freeze_java_frame P K f s caller fsize asize rec =
     (let s1 = s\<lparr>fr_size := fr_size s + fsize\<rparr> in
      if f_frame_bottom f \<ge> bottom_address s1 - 1
      then finalize_freeze P f asize s1 caller
      else rec s1 caller asize (K = Interpreted))"

definition recurse_freeze_compiled_frame ::
  "platform \<Rightarrow> frame \<Rightarrow> vm \<Rightarrow> frame \<Rightarrow> int \<Rightarrow> bool \<Rightarrow> freeze_rec \<Rightarrow> freeze_ret" where
  "recurse_freeze_compiled_frame P f s caller callee_argsize callee_interpreted rec =
     (let frame_sp = frame_top P Compiled f callee_argsize callee_interpreted;
          asize = f_stack_argsize f;
          fsize = f_frame_bottom f + asize - frame_sp
      in case recurse_freeze_java_frame P Compiled f s caller fsize asize rec of
           None \<Rightarrow> None
         | Some (result, s1, caller1) \<Rightarrow>
             if freeze_result_code result > freeze_result_code freeze_ok_bottom
             then Some (result, s1, caller1)
             else
               let bottom = (result = freeze_ok_bottom);
                   (hf, caller2) = new_heap_frame P Compiled f caller1;
                   heap_sp = frame_top P Compiled hf callee_argsize callee_interpreted
               in (case copy_to_chunk frame_sp heap_sp fsize s1 of
                     None \<Rightarrow> None
                   | Some s2 \<Rightarrow>
                       let s3 = (if f_kind caller2 = Interpreted
                                 then s2\<lparr>fr_align_size := fr_align_size s2 + align_wiggle P\<rparr>
                                 else s2)
                       in (case patch P f hf caller2 bottom s3 of
                             None \<Rightarrow> None
                           | Some s4 \<Rightarrow> Some (freeze_ok, s4, hf))))"

definition recurse_freeze_interpreted_frame ::
  "platform \<Rightarrow> frame \<Rightarrow> vm \<Rightarrow> frame \<Rightarrow> int \<Rightarrow> bool \<Rightarrow> freeze_rec \<Rightarrow> freeze_ret" where
  "recurse_freeze_interpreted_frame P f0 s caller callee_argsize callee_interpreted rec =
     (let f = adjust_interpreted_frame_unextended_sp P f0;
          frame_sp = frame_top P Interpreted f callee_argsize callee_interpreted;
          asize = f_stack_argsize f;
          locals = f_max_locals f;
          fsize = f_fp f + metadata_words P + locals - frame_sp
      in case recurse_freeze_java_frame P Interpreted f s caller fsize asize rec of
           None \<Rightarrow> None
         | Some (result, s1, caller1) \<Rightarrow>
             if freeze_result_code result > freeze_result_code freeze_ok_bottom
             then Some (result, s1, caller1)
             else
               let bottom = (result = freeze_ok_bottom);
                   (hf, caller2) = new_heap_frame P Interpreted f caller1;
                   s2 = s1\<lparr>fr_align_size := fr_align_size s1 + align_wiggle P\<rparr>;
                   heap_sp = frame_top P Interpreted hf callee_argsize callee_interpreted
               in (case copy_to_chunk (f_frame_bottom f - locals)
                          (f_frame_bottom hf - locals) locals s2 of
                     None \<Rightarrow> None
                   | Some s3 \<Rightarrow>
                       (case copy_to_chunk frame_sp heap_sp (fsize - locals) s3 of
                          None \<Rightarrow> None
                        | Some s4 \<Rightarrow>
                            (case with_tail
                                    (\<lambda>c. c\<lparr>mem := relativize_interpreted_frame_metadata P f hf (mem c)\<rparr>)
                                    s4 of
                               None \<Rightarrow> None
                             | Some s5 \<Rightarrow>
                                 (case patch P f hf caller2 bottom s5 of
                                    None \<Rightarrow> None
                                  | Some s6 \<Rightarrow> Some (freeze_ok, s6, hf))))))"

text \<open>
  \<^verbatim>\<open>FreezeBase::recurse_freeze_stub_frame\<close>, for the stub \<open>f\<close> and its sender
  \<open>senderf\<close>; \<open>rec\<close> is the recursive call made for the sender's own sender.
\<close>

definition recurse_freeze_stub_frame ::
  "platform \<Rightarrow> frame \<Rightarrow> frame \<Rightarrow> vm \<Rightarrow> frame \<Rightarrow> freeze_rec \<Rightarrow> freeze_ret" where
  "recurse_freeze_stub_frame P f senderf s caller rec =
     (let frame_sp = frame_top P Stub f 0 False;
          fsize = f_cb_frame_size f;
          s1 = s\<lparr>fr_size := fr_size s + fsize\<rparr>
      in if \<not> f_has_oop_map senderf then Some (freeze_pinned_native, s1, caller)
         else if f_owning_locks senderf then Some (freeze_pinned_monitor, s1, caller)
         else
           (case recurse_freeze_compiled_frame P senderf s1 caller 0 False rec of
              None \<Rightarrow> None
            | Some (result, s2, caller1) \<Rightarrow>
                if freeze_result_code result > freeze_result_code freeze_ok_bottom
                then Some (result, s2, caller1)
                else
                  let (hf, caller2) = new_heap_frame P Stub f caller1;
                      heap_sp = frame_top P Stub hf 0 False
                  in (case copy_to_chunk frame_sp heap_sp fsize s2 of
                        None \<Rightarrow> None
                      | Some s3 \<Rightarrow> Some (freeze_ok, s3, hf))))"

fun freeze ::
  "platform \<Rightarrow> frame list \<Rightarrow> vm \<Rightarrow> frame \<Rightarrow> int \<Rightarrow> bool \<Rightarrow> bool \<Rightarrow> nat \<Rightarrow> freeze_ret" where
  "freeze P [] s caller callee_argsize callee_interpreted is_top d = None"
| "freeze P (f # senders) s caller callee_argsize callee_interpreted is_top d =
     (let s1 = snd (stack_overflow P d s) in
      if fst (stack_overflow P d s) then Some (freeze_exception, s1, caller)
      else if f_kind f = Compiled then
        if \<not> f_has_oop_map f then Some (freeze_pinned_native, s1, caller)
        else if f_owning_locks f then Some (freeze_pinned_monitor, s1, caller)
        else recurse_freeze_compiled_frame P f s1 caller callee_argsize callee_interpreted
               (\<lambda>s' c' a' i'. freeze P senders s' c' a' i' False (Suc d))
      else if f_kind f = Interpreted then
        if f_owning_locks f then Some (freeze_pinned_monitor, s1, caller)
        else if preempt s1 \<and> is_top \<and> f_method_is_native f
        then Some (freeze_pinned_native, s1, caller)
        else recurse_freeze_interpreted_frame P f s1 caller callee_argsize callee_interpreted
               (\<lambda>s' c' a' i'. freeze P senders s' c' a' i' False (Suc d))
      else if preempt s1 \<and> is_top \<and> f_kind f = Stub then
        (case senders of
           [] \<Rightarrow> None
         | senderf # rest \<Rightarrow>
             recurse_freeze_stub_frame P f senderf s1 caller
               (\<lambda>s' c' a' i'. freeze P rest s' c' a' i' False (Suc d)))
      else Some (freeze_pinned_native, s1, caller))"

text \<open>
  \<^verbatim>\<open>FreezeBase::freeze_start_frame\<close>, with \<^verbatim>\<open>freeze_start_frame_yield_stub\<close> and
  \<^verbatim>\<open>freeze_start_frame_safepoint_stub\<close>: the frames from the start frame on.
\<close>

definition freeze_start_frame :: "platform \<Rightarrow> vm \<Rightarrow> frame list \<Rightarrow> frame list option" where
  "freeze_start_frame P s fs =
     (case fs of
        [] \<Rightarrow> None
      | f0 # senders \<Rightarrow>
          if \<not> preempt s then (if senders = [] then None else Some senders)
          else
            let f = f0\<lparr>f_fp := real_fp P f0\<rparr> in
            if \<not> interpreter_contains P (f_pc f) \<and> f_return_pc_interpreted f
            then (if senders = [] then None else Some senders)
            else Some (f # senders))"

text \<open>\<^verbatim>\<open>FreezeBase::finish_freeze\<close>.\<close>

definition finish_freeze :: "platform \<Rightarrow> frame \<Rightarrow> vm \<Rightarrow> vm option" where
  "finish_freeze P topf s =
     with_tail (\<lambda>chunk.
       let c1 = chunk\<lparr>mem := set_top_frame_metadata_pd P topf (mem chunk),
                      sp := f_sp topf, pc := f_pc topf,
                      max_size := max_size chunk + fr_align_size s\<rparr>
       in if barriers s then c1\<lparr>mem := do_barriers P c1\<rparr> else c1) s"

text \<open>\<^verbatim>\<open>FreezeBase::freeze_slow\<close>, on the thread's frames \<open>fs\<close> (the last frame first).\<close>

definition freeze_slow :: "platform \<Rightarrow> frame list \<Rightarrow> vm \<Rightarrow> (freeze_result \<times> vm) option" where
  "freeze_slow P fs s =
     (let s1 = s\<lparr>fr_size := 0, fr_align_size := 0\<rparr> in
      case freeze_start_frame P s1 fs of
        None \<Rightarrow> None
      | Some fl \<Rightarrow>
          (case freeze P fl s1 empty_frame 0 False True 0 of
             None \<Rightarrow> None
           | Some (res, s2, caller) \<Rightarrow>
               if res = freeze_ok then
                 (case finish_freeze P caller s2 of
                    None \<Rightarrow> None
                  | Some s3 \<Rightarrow> Some (res, cont_write s3))
               else Some (res, s2)))"

text \<open>\<^verbatim>\<open>Freeze::try_freeze_fast<chunk_available>\<close>.\<close>

definition try_freeze_fast ::
  "platform \<Rightarrow> bool \<Rightarrow> int \<Rightarrow> frame list \<Rightarrow> vm \<Rightarrow> (freeze_result \<times> vm) option" where
  "try_freeze_fast P chunk_available frame_sp fs s =
     (case freeze_fast P chunk_available frame_sp s of
        None \<Rightarrow> None
      | Some (True, s1) \<Rightarrow> Some (freeze_ok, s1)
      | Some (False, s1) \<Rightarrow>
          if has_pending_exception s1 then Some (freeze_exception, s1)
          else freeze_slow P fs s1)"

text \<open>\<^verbatim>\<open>can_freeze_fast\<close>.\<close>

definition can_freeze_fast :: "platform \<Rightarrow> vm \<Rightarrow> bool" where
  "can_freeze_fast P s =
     ((cont_fastpath s \<and> UseContinuationFastPath P) \<and> held_monitor_count s = 0)"

text \<open>
  The constructors of \<^verbatim>\<open>ContinuationWrapper\<close> (the wrapper opens on the continuation's
  tail) and of \<^verbatim>\<open>FreezeBase\<close> (on a 64-bit platform the bottom address is aligned down
  to two words).
\<close>

definition open_wrapper :: "vm \<Rightarrow> vm" where
  "open_wrapper s = s\<lparr>w_tail := cont_tail s\<rparr>"

definition FreezeBase :: "bool \<Rightarrow> vm \<Rightarrow> vm" where
  "FreezeBase pre s =
     (let b = entrySP s - entry_argsize s
      in s\<lparr>barriers := False, preempt := pre,
           bottom_address := (if b mod 2 \<noteq> 0 then b - 1 else b)\<rparr>)"

text \<open>
  \<^verbatim>\<open>freeze_internal\<close>: the sp at the yield stub, the thread's frames, the state.  The
  result is the \<^verbatim>\<open>int\<close> handed back to the stub.
\<close>

definition freeze_internal ::
  "platform \<Rightarrow> int \<Rightarrow> frame list \<Rightarrow> vm \<Rightarrow> (int \<times> vm) option" where
  "freeze_internal P frame_sp fs s0 =
     (let s = open_wrapper s0 in
      if entry_pinned s then Some (freeze_result_code freeze_pinned_cs, s)
      else
        let s1 = FreezeBase False s;
            fast = can_freeze_fast P s1
        in if fast \<and> is_chunk_available_for_fast_freeze P frame_sp s1 then
             (case try_freeze_fast P True frame_sp fs s1 of
                None \<Rightarrow> None
              | Some (res, s2) \<Rightarrow> Some (0, s2))
           else
             (case (if fast then try_freeze_fast P False frame_sp fs s1
                    else freeze_slow P fs s1) of
                None \<Rightarrow> None
              | Some (res, s2) \<Rightarrow> Some (freeze_result_code res, s2)))"

subsection \<open>Thaw: sizing pre-pass\<close>

text \<open>\<^verbatim>\<open>stack_overflow_check\<close>; addresses and sizes in bytes.\<close>

definition stack_overflow_check :: "platform \<Rightarrow> vm \<Rightarrow> int \<Rightarrow> int \<Rightarrow> bool" where
  "stack_overflow_check P s sz addr =
     (if sz > vm_page_size P then
        (if addr - sz < stack_overflow_limit s then False else True)
      else True)"

text \<open>
  The value of an arithmetic result in a C \<^verbatim>\<open>int\<close>: 32 bits, two's complement,
  wrapping around.
\<close>

definition int32 :: "int \<Rightarrow> int" where
  "int32 x = (x + 2 ^ 31) mod 2 ^ 32 - 2 ^ 31"

text \<open>\<^verbatim>\<open>thaw_size\<close>, in words, an \<^verbatim>\<open>int\<close>.\<close>

definition thaw_size :: "platform \<Rightarrow> stackChunk \<Rightarrow> int" where
  "thaw_size P chunk = int32 (max_size chunk + metadata_words P + 2 * align_wiggle P + 200)"

text \<open>The byte address of a word address.\<close>

definition to_bytes :: "platform \<Rightarrow> int \<Rightarrow> int" where
  "to_bytes P n = n * 2 ^ LogBytesPerWord P"

text \<open>
  \<^verbatim>\<open>prepare_thaw_internal\<close>.  It reads and writes the continuation object's tail
  directly.  The size \<^verbatim>\<open>thaw_size(chunk) << LogBytesPerWord\<close> and the sum
  \<^verbatim>\<open>size + 300\<close> are of type \<^verbatim>\<open>int\<close>; the entry's sp is an address.  \<open>None\<close>
  where the source dereferences a null chunk.
\<close>

definition prepare_thaw_internal :: "platform \<Rightarrow> bool \<Rightarrow> vm \<Rightarrow> (int \<times> vm) option" where
  "prepare_thaw_internal P return_barrier s =
     (case deref s (cont_tail s) of None \<Rightarrow> None
      | Some chunk0 \<Rightarrow>
          (case (if is_empty chunk0
                 then (case deref s (parent chunk0) of None \<Rightarrow> None
                       | Some par \<Rightarrow> Some (par, s\<lparr>cont_tail := parent chunk0\<rparr>))
                 else Some (chunk0, s)) of
             None \<Rightarrow> None
           | Some (chunk, s1) \<Rightarrow>
               let sz = int32 (thaw_size P chunk * 2 ^ LogBytesPerWord P);
                   bottom = to_bytes P (entrySP s1)
               in if \<not> stack_overflow_check P s1 (int32 (sz + 300)) bottom then Some (0, s1)
                  else Some (sz, s1)))"

subsection \<open>Thaw: fast path\<close>

definition TEST_THAW_ONE_CHUNK_FRAME :: bool where
  "TEST_THAW_ONE_CHUNK_FRAME = False"

definition threshold :: int where
  "threshold = 500"

text \<open>
  Modelled from the spec: \<^verbatim>\<open>StackChunkFrameStream<ChunkFrames::CompiledOnly>\<close>, the
  cursor over the frames of a chunk (4.2), is declared outside the file.  The cursor
  starts at the chunk's \<^verbatim>\<open>sp\<close>; the pc of the frame at offset \<open>fsp\<close> is the word in
  its return-pc slot; the code blob found for that pc gives the frame size and the
  stack-argument size; \<^verbatim>\<open>next\<close> advances by the frame size; the cursor is done at the
  chunk's bottom, \<^verbatim>\<open>stack_size - argsize\<close>.  This agrees with the assertions of
  \<^verbatim>\<open>thaw_fast\<close> on \<^verbatim>\<open>f.sp()\<close>, \<^verbatim>\<open>f.pc()\<close> and \<^verbatim>\<open>f.is_done()\<close>.
\<close>

definition stream_pc :: "platform \<Rightarrow> stackChunk \<Rightarrow> int \<Rightarrow> word64" where
  "stream_pc P chunk fsp = mem chunk (fsp - sender_sp_ret_address_offset P)"

definition stream_is_done :: "stackChunk \<Rightarrow> int \<Rightarrow> bool" where
  "stream_is_done chunk fsp = (fsp \<ge> stack_size chunk - argsize chunk)"

text \<open>\<^verbatim>\<open>ThawBase::patch_return\<close>.\<close>

definition patch_return :: "platform \<Rightarrow> int \<Rightarrow> bool \<Rightarrow> vm \<Rightarrow> vm" where
  "patch_return P bsp is_last s =
     (let pc' = (if \<not> is_last then cont_returnBarrier P else entryPC s)
      in s\<lparr>stack := (stack s)(bsp - sender_sp_ret_address_offset P := pc')\<rparr>)"

text \<open>
  \<^verbatim>\<open>Thaw::thaw_fast\<close> on the chunk at reference \<open>r\<close>.  The result is the new native
  sp and the state.
\<close>

definition thaw_fast :: "platform \<Rightarrow> nat \<Rightarrow> vm \<Rightarrow> (int \<times> vm) option" where
  "thaw_fast P r s =
     (case deref s (Some r) of None \<Rightarrow> None
      | Some chunk \<Rightarrow>
          let chunk_start_sp = sp chunk;
              full_chunk_size = stack_size chunk - chunk_start_sp;
              (asize, tsize, empty, chunk') =
                (if \<not> TEST_THAW_ONE_CHUNK_FRAME \<and> full_chunk_size < threshold then
                   (argsize chunk, full_chunk_size, True,
                    chunk\<lparr>sp := stack_size chunk, argsize := 0, max_size := 0\<rparr>)
                 else
                   let fpc = stream_pc P chunk chunk_start_sp;
                       frame_size = cb_frame_size P fpc;
                       fargsize = cb_stack_argsize P fpc;
                       next_sp = chunk_start_sp + frame_size;
                       done = stream_is_done chunk next_sp
                   in (fargsize, frame_size + fargsize, done,
                       if done
                       then chunk\<lparr>sp := stack_size chunk, argsize := 0, max_size := 0\<rparr>
                       else chunk\<lparr>sp := sp chunk + frame_size,
                                  max_size := max_size chunk - frame_size,
                                  pc := stream_pc P chunk next_sp\<rparr>));
              is_last = (empty \<and> parent chunk' = None);
              stack_sp0 = entrySP s;
              bottom_sp = frame_align_pointer P (stack_sp0 - asize);
              stack_sp = frame_align_pointer P (stack_sp0 - tsize);
              from = chunk_start_sp - metadata_words P;
              to = stack_sp - metadata_words P;
              s1 = (store r chunk' s)
                     \<lparr>stack := copy_words (mem chunk) from (stack s) to (tsize + metadata_words P)\<rparr>;
              s2 = s1\<lparr>entry_argsize := asize\<rparr>
          in Some (stack_sp, patch_return P bottom_sp is_last s2))"

subsection \<open>Thaw: slow path\<close>

text \<open>
  Modelled from the spec: \<^verbatim>\<open>StackChunkFrameStream<ChunkFrames::Mixed>\<close>, the cursor of
  the slow path (4.2).  Its state is the list of the frames it has not passed yet,
  topmost first, and the offset \<open>e\<close> of the chunk's bottom, where it is done;
  \<^verbatim>\<open>next\<close> drops the first frame.
\<close>

definition stream_frame :: "frame list \<Rightarrow> int \<Rightarrow> frame" where
  "stream_frame cfs e =
     (case cfs of [] \<Rightarrow> empty_frame\<lparr>f_sp := e, f_unextended_sp := e\<rparr> | f # _ \<Rightarrow> f)"

text \<open>\<^verbatim>\<open>ThawBase::seen_by_gc\<close>; \<open>None\<close> on a null tail.\<close>

definition seen_by_gc :: "vm \<Rightarrow> bool option" where
  "seen_by_gc s = map_option (\<lambda>c. barriers s \<or> is_gc_mode c) (deref s (w_tail s))"

text \<open>\<^verbatim>\<open>ThawBase::maybe_set_fastpath\<close>.\<close>

definition maybe_set_fastpath :: "int \<Rightarrow> vm \<Rightarrow> vm" where
  "maybe_set_fastpath a s = (if a > th_fastpath s then s\<lparr>th_fastpath := a\<rparr> else s)"

text \<open>\<^verbatim>\<open>ThawBase::copy_from_chunk\<close>.\<close>

definition copy_from_chunk :: "int \<Rightarrow> int \<Rightarrow> int \<Rightarrow> vm \<Rightarrow> vm option" where
  "copy_from_chunk from to n s =
     map_option (\<lambda>c. s\<lparr>stack := copy_words (mem c) from (stack s) to n\<rparr>) (deref s (w_tail s))"

text \<open>The store barriers \<^verbatim>\<open>do_barriers<Store>(_stream, map)\<close> on the cursor's frame.\<close>

definition thaw_barriers :: "platform \<Rightarrow> frame \<Rightarrow> vm \<Rightarrow> vm option" where
  "thaw_barriers P hf s =
     (case seen_by_gc s of
        None \<Rightarrow> None
      | Some True \<Rightarrow> with_tail (\<lambda>c. c\<lparr>mem := do_barriers_frame P hf c\<rparr>) s
      | Some False \<Rightarrow> Some s)"

text \<open>\<^verbatim>\<open>ThawBase::finalize_thaw\<close>, for the cursor \<open>cfs\<close>, \<open>e\<close>.\<close>

definition finalize_thaw ::
  "platform \<Rightarrow> frame list \<Rightarrow> int \<Rightarrow> int \<Rightarrow> vm \<Rightarrow> (vm \<times> frame) option" where
  "finalize_thaw P cfs e asize s =
     (case with_tail (\<lambda>chunk.
             let c1 = (if cfs \<noteq> []
                       then chunk\<lparr>sp := f_sp (stream_frame cfs e), pc := f_pc (stream_frame cfs e)\<rparr>
                       else chunk\<lparr>argsize := 0, sp := stack_size chunk, pc := 0\<rparr>);
                 delta = f_unextended_sp (stream_frame cfs e) - top_unextended_sp s
             in c1\<lparr>max_size := max_size c1 - delta\<rparr>) s of
        None \<Rightarrow> None
      | Some s1 \<Rightarrow>
          let s2 = s1\<lparr>entry_argsize := asize\<rparr>
          in Some (s2, new_entry_frame P (entrySP s2) (entryPC s2)))"

text \<open>
  The functions between two activations of \<^verbatim>\<open>thaw_one_frame\<close> take the recursive call
  \<^verbatim>\<open>thaw_one_frame(_stream.to_frame(), caller, num_frames - 1, false)\<close> as their last
  argument \<open>rec\<close>, a function of the state, the caller and the number of frames.
\<close>

type_synonym thaw_rec = "vm \<Rightarrow> frame \<Rightarrow> int \<Rightarrow> (vm \<times> frame) option"

text \<open>
  \<^verbatim>\<open>ThawBase::recurse_thaw_java_frame<FKind>\<close>, with the cursor on \<open>hf\<close> and
  \<open>rest\<close> below it.  The result is \<^verbatim>\<open>bottom\<close>, the state and \<^verbatim>\<open>caller\<close>.
\<close>

definition recurse_thaw_java_frame ::
  "platform \<Rightarrow> frame_kind \<Rightarrow> frame \<Rightarrow> frame list \<Rightarrow> int \<Rightarrow> vm \<Rightarrow> frame \<Rightarrow> int \<Rightarrow> thaw_rec
    \<Rightarrow> (bool \<times> vm \<times> frame) option" where
  "recurse_thaw_java_frame P K hf rest e s caller num_frames rec =
     (let asize = f_stack_argsize hf;
          num_frames1 =
            (if num_frames = 1 \<and> rest \<noteq> [] \<and> K = Interpreted
                \<and> f_kind (stream_frame rest e) = Compiled
             then num_frames + 1 else num_frames)
      in if num_frames1 = 1 \<or> rest = [] then
           map_option (\<lambda>(s1, entry). (True, s1, entry))
             (finalize_thaw P rest e (if K = Interpreted then 0 else asize) s)
         else
           map_option (\<lambda>(s1, caller1). (False, s1, caller1))
             (rec s caller (num_frames1 - 1)))"

text \<open>\<^verbatim>\<open>ThawBase::patch\<close> (thaw).\<close>

definition thaw_patch :: "platform \<Rightarrow> frame \<Rightarrow> frame \<Rightarrow> bool \<Rightarrow> vm \<Rightarrow> vm" where
  "thaw_patch P f caller bottom s =
     (let m1 = (if bottom
                then patch_pc P caller
                       (if cont_is_empty s then f_raw_pc caller else cont_returnBarrier P) (stack s)
                else stack s);
          m2 = patch_pd P f caller m1;
          m3 = (if f_kind f = Interpreted
                then patch_sender_sp P f (f_unextended_sp caller) m2 else m2)
      in s\<lparr>stack := m3\<rparr>)"

text \<open>\<^verbatim>\<open>ThawBase::clear_bitmap_bits\<close>, with one bit per word of the chunk.\<close>

definition clear_bitmap_bits :: "int \<Rightarrow> int \<Rightarrow> stackChunk \<Rightarrow> stackChunk" where
  "clear_bitmap_bits start nwords c =
     c\<lparr>bitmap := (\<lambda>i. if start \<le> i \<and> i < start + nwords then False else bitmap c i)\<rparr>"

text \<open>
  The end of \<^verbatim>\<open>recurse_thaw_interpreted_frame\<close> and \<^verbatim>\<open>recurse_thaw_compiled_frame\<close>:
  fixing the caller, or clearing the bitmap bits of the arguments of the bottom frame.
\<close>

definition thaw_fix_or_clear ::
  "platform \<Rightarrow> bool \<Rightarrow> frame \<Rightarrow> int \<Rightarrow> int \<Rightarrow> vm \<Rightarrow> vm option" where
  "thaw_fix_or_clear P bottom caller start nwords s =
     (case w_tail s of None \<Rightarrow> None
      | Some r \<Rightarrow>
          (case deref s (Some r) of None \<Rightarrow> None
           | Some c \<Rightarrow>
               if \<not> bottom then Some (s\<lparr>stack := fix_thawed_frame P c caller (stack s)\<rparr>)
               else if has_bitmap c \<and> nwords > 0
               then Some (store r (clear_bitmap_bits start nwords c) s)
               else Some s))"

text \<open>\<^verbatim>\<open>ThawBase::recurse_thaw_compiled_frame\<close>.\<close>

definition recurse_thaw_compiled_frame ::
  "platform \<Rightarrow> frame \<Rightarrow> frame list \<Rightarrow> int \<Rightarrow> vm \<Rightarrow> frame \<Rightarrow> int \<Rightarrow> bool \<Rightarrow> thaw_rec
    \<Rightarrow> (vm \<times> frame) option" where
  "recurse_thaw_compiled_frame P hf rest e s caller num_frames stub_caller rec =
     (case (if \<not> stub_caller then thaw_barriers P hf s else Some s) of
        None \<Rightarrow> None
      | Some s0 \<Rightarrow>
      (case recurse_thaw_java_frame P Compiled hf rest e s0 caller num_frames rec of
         None \<Rightarrow> None
       | Some (bottom, s1, caller1) \<Rightarrow>
       (case deref s1 (w_tail s1) of
          None \<Rightarrow> None
        | Some chunk \<Rightarrow>
          let s2 = (if (\<not> bottom \<and> f_kind caller1 = Interpreted)
                       \<or> (bottom \<and> interpreter_contains P (pc chunk))
                    then s1\<lparr>fr_align_size := fr_align_size s1 + align_wiggle P\<rparr> else s1);
              (f, caller2) = new_stack_frame P Compiled hf caller1 bottom;
              frame_sp = f_sp f;
              heap_sp = f_unextended_sp hf;
              added_argsize = (if bottom \<or> f_kind caller2 = Interpreted
                               then f_stack_argsize hf else 0);
              fsize = f_cb_frame_size hf + added_argsize
          in (case copy_from_chunk (heap_sp - metadata_words P) (frame_sp - metadata_words P)
                     (fsize + metadata_words P) s2 of
                None \<Rightarrow> None
              | Some s3 \<Rightarrow>
                  let s4 = thaw_patch P f caller2 bottom s3;
                      (f1, s5) =
                        (if f_deoptimized f then (f, maybe_set_fastpath (f_sp f) s4)
                         else if is_interp_only_mode s4
                                 \<or> (is_preempted s4 \<and> f_marked_for_deoptimization f)
                         then (let (fd, m) = deoptimize P f (stack s4)
                               in (fd, maybe_set_fastpath (f_sp fd) (s4\<lparr>stack := m\<rparr>)))
                         else (f, s4))
                  in map_option (\<lambda>s6. (s6, f1))
                       (thaw_fix_or_clear P bottom caller2
                          (heap_sp + f_cb_frame_size hf) added_argsize s5)))))"

text \<open>\<^verbatim>\<open>ThawBase::recurse_thaw_interpreted_frame\<close>.\<close>

definition recurse_thaw_interpreted_frame ::
  "platform \<Rightarrow> frame \<Rightarrow> frame list \<Rightarrow> int \<Rightarrow> vm \<Rightarrow> frame \<Rightarrow> int \<Rightarrow> thaw_rec
    \<Rightarrow> (vm \<times> frame) option" where
  "recurse_thaw_interpreted_frame P hf rest e s caller num_frames rec =
     (case thaw_barriers P hf s of
        None \<Rightarrow> None
      | Some s0 \<Rightarrow>
      (case recurse_thaw_java_frame P Interpreted hf rest e s0 caller num_frames rec of
         None \<Rightarrow> None
       | Some (bottom, s1, caller1) \<Rightarrow>
           let s2 = s1\<lparr>fr_align_size := fr_align_size s1 + align_wiggle P\<rparr>;
               (f, caller2) = new_stack_frame P Interpreted hf caller1 bottom;
               frame_sp = f_sp f;
               heap_sp = f_unextended_sp hf;
               frame_bottom = f_frame_bottom f;
               fsize = f_frame_bottom hf - heap_sp;
               locals = f_max_locals hf
           in (case copy_from_chunk (f_frame_bottom hf - locals) (f_frame_bottom f - locals)
                      locals s2 of
                 None \<Rightarrow> None
               | Some s3 \<Rightarrow>
                   (case copy_from_chunk heap_sp frame_sp (fsize - locals) s3 of
                      None \<Rightarrow> None
                    | Some s4 \<Rightarrow>
                        let m1 = set_interpreter_frame_bottom P f frame_bottom (stack s4);
                            m2 = derelativize_interpreted_frame_metadata P hf f m1;
                            s5 = thaw_patch P f caller2 bottom (s4\<lparr>stack := m2\<rparr>);
                            s6 = maybe_set_fastpath (f_sp f) s5
                        in map_option (\<lambda>s7. (s7, f))
                             (thaw_fix_or_clear P bottom caller2
                                (f_frame_bottom hf - locals) locals s6)))))"

text \<open>
  \<^verbatim>\<open>ThawBase::recurse_thaw_stub_frame\<close>, for the stub \<open>hf\<close> with the cursor moved
  on to its caller \<open>hf2\<close>.
\<close>

definition recurse_thaw_stub_frame ::
  "platform \<Rightarrow> frame \<Rightarrow> frame \<Rightarrow> frame list \<Rightarrow> int \<Rightarrow> vm \<Rightarrow> frame \<Rightarrow> int \<Rightarrow> thaw_rec
    \<Rightarrow> (vm \<times> frame) option" where
  "recurse_thaw_stub_frame P hf hf2 rest e s caller num_frames rec =
     (case thaw_barriers P hf2 s of
        None \<Rightarrow> None
      | Some s0 \<Rightarrow>
      (case recurse_thaw_compiled_frame P hf2 rest e s0 caller num_frames True rec of
         None \<Rightarrow> None
       | Some (s1, caller1) \<Rightarrow>
           let fsize = f_cb_frame_size hf;
               (f, caller2) = new_stack_frame P Stub hf caller1 False
           in (case copy_from_chunk (f_sp hf - metadata_words P) (f_sp f - metadata_words P)
                      (fsize + metadata_words P) s1 of
                 None \<Rightarrow> None
               | Some s2 \<Rightarrow>
                   map_option (\<lambda>c. (s2\<lparr>stack := fix_thawed_frame P c caller2 (stack s2)\<rparr>, f))
                     (deref s2 (w_tail s2)))))"

text \<open>\<^verbatim>\<open>ThawBase::thaw_one_frame\<close>, with the cursor on the first frame of the list.\<close>

fun thaw_one_frame ::
  "platform \<Rightarrow> frame list \<Rightarrow> int \<Rightarrow> vm \<Rightarrow> frame \<Rightarrow> int \<Rightarrow> bool \<Rightarrow> (vm \<times> frame) option" where
  "thaw_one_frame P [] e s caller num_frames is_top = None"
| "thaw_one_frame P (hf # rest) e s caller num_frames is_top =
     (if is_top \<and> f_safepoint_blob hf then
        (case rest of
           [] \<Rightarrow> None
         | hf2 # rest2 \<Rightarrow>
             recurse_thaw_stub_frame P hf hf2 rest2 e s caller num_frames
               (\<lambda>s' c' n'. thaw_one_frame P rest2 e s' c' n' False))
      else if f_kind hf \<noteq> Interpreted then
        recurse_thaw_compiled_frame P hf rest e s caller num_frames False
          (\<lambda>s' c' n'. thaw_one_frame P rest e s' c' n' False)
      else
        recurse_thaw_interpreted_frame P hf rest e s caller num_frames
          (\<lambda>s' c' n'. thaw_one_frame P rest e s' c' n' False))"

text \<open>\<^verbatim>\<open>ThawBase::finish_thaw\<close> with \<^verbatim>\<open>push_return_frame\<close>.\<close>

definition finish_thaw :: "platform \<Rightarrow> frame \<Rightarrow> vm \<Rightarrow> (vm \<times> frame) option" where
  "finish_thaw P f s =
     (case w_tail s of None \<Rightarrow> None
      | Some r \<Rightarrow>
          (case deref s (Some r) of None \<Rightarrow> None
           | Some chunk \<Rightarrow>
               let s1 =
                     (if is_empty chunk then
                        (if barriers s \<or> is_gc_mode chunk
                         then store r (chunk\<lparr>max_size := 0\<rparr>) (s\<lparr>w_tail := parent chunk\<rparr>)
                         else store r (chunk\<lparr>has_mixed_frames := False, max_size := 0\<rparr>) s)
                      else store r (chunk\<lparr>max_size := max_size chunk - fr_align_size s\<rparr>) s);
                   f1 = (if to_bytes P (f_sp f) mod frame_alignment P \<noteq> 0
                         then f\<lparr>f_sp := f_sp f - 1\<rparr> else f);
                   m1 = push_pd P f1 (patch_pc P f1 (f_raw_pc f1) (stack s1));
                   m2 = fix_thawed_frame P (heap s1 ! r) f1 m1
               in Some (s1\<lparr>stack := m2\<rparr>, f1)))"

text \<open>
  \<^verbatim>\<open>ThawBase::thaw_slow\<close> on the chunk at reference \<open>r\<close>.  At the end
  \<^verbatim>\<open>set_cont_fastpath(_fastpath)\<close> stores the highest thawed frame that rules the fast
  path out, or null.  \<^verbatim>\<open>JavaThread::cont_fastpath()\<close> is declared outside the file: it
  holds when the stored value is null and, as the assertion of \<^verbatim>\<open>can_freeze_fast\<close>
  requires, \<^verbatim>\<open>cont_fastpath_thread_state()\<close> holds.
\<close>

definition thaw_slow :: "platform \<Rightarrow> nat \<Rightarrow> bool \<Rightarrow> vm \<Rightarrow> (int \<times> vm) option" where
  "thaw_slow P r return_barrier s0 =
     (case deref s0 (Some r) of None \<Rightarrow> None
      | Some chunk \<Rightarrow>
          let num_frames = (if return_barrier then 1 else 2);
              cfs = chunk_frames P chunk;
              e = stack_size chunk - argsize chunk;
              s = s0\<lparr>fr_align_size := 0,
                     top_unextended_sp := f_unextended_sp (stream_frame cfs e)\<rparr>
          in (case thaw_one_frame P cfs e s empty_frame num_frames True of
                None \<Rightarrow> None
              | Some (s1, caller) \<Rightarrow>
                  (case finish_thaw P caller s1 of
                     None \<Rightarrow> None
                   | Some (s2, caller1) \<Rightarrow>
                       let s3 = cont_write s2;
                           s4 = s3\<lparr>cont_fastpath := (th_fastpath s3 = 0 \<and> cont_fastpath_thread_state s3)\<rparr>
                       in Some (f_sp caller1, s4))))"

text \<open>
  Modelled from the spec: \<^verbatim>\<open>stackChunkOopDesc::has_thaw_slowpath_condition()\<close> is
  declared outside the file; by invariant 3 of the data model the fast thaw path
  requires a chunk without mixed frames, not in GC mode and without a bitmap.
\<close>

definition has_thaw_slowpath_condition :: "stackChunk \<Rightarrow> bool" where
  "has_thaw_slowpath_condition c = (has_mixed_frames c \<or> is_gc_mode c \<or> has_bitmap c)"

text \<open>\<^verbatim>\<open>Thaw::can_thaw_fast\<close>.\<close>

definition can_thaw_fast :: "platform \<Rightarrow> vm \<Rightarrow> stackChunk \<Rightarrow> bool" where
  "can_thaw_fast P s chunk =
     (\<not> barriers s \<and> cont_fastpath_thread_state s \<and> \<not> has_thaw_slowpath_condition chunk
      \<and> \<not> PreserveFramePointer P)"

text \<open>\<^verbatim>\<open>Thaw::thaw\<close>.\<close>

definition thaw :: "platform \<Rightarrow> thaw_kind \<Rightarrow> vm \<Rightarrow> (int \<times> vm) option" where
  "thaw P kind s0 =
     (case w_tail s0 of None \<Rightarrow> None
      | Some r \<Rightarrow>
          (case deref s0 (Some r) of None \<Rightarrow> None
           | Some chunk \<Rightarrow>
               let s = s0\<lparr>barriers := requires_barriers chunk\<rparr>
               in if can_thaw_fast P s chunk then thaw_fast P r s
                  else thaw_slow P r (kind \<noteq> thaw_top) s))"

text \<open>\<^verbatim>\<open>thaw_internal\<close>: the wrapper and the \<^verbatim>\<open>Thaw\<close> object are set up, then \<^verbatim>\<open>thaw\<close>.\<close>

definition thaw_internal :: "platform \<Rightarrow> thaw_kind \<Rightarrow> vm \<Rightarrow> (int \<times> vm) option" where
  "thaw_internal P kind s0 =
     (case thaw P kind ((open_wrapper s0)\<lparr>th_fastpath := 0\<rparr>) of
        None \<Rightarrow> None
      | Some (n, s1) \<Rightarrow> Some (n, s1\<lparr>held_monitor_count := 0\<rparr>))"

text \<open>The header fields of a chunk, and those of chunk \<open>r\<close> after a fast thaw.\<close>

definition chunk_header :: "stackChunk \<Rightarrow> int \<times> int \<times> int \<times> word64" where
  "chunk_header c = (sp c, argsize c, max_size c, pc c)"

definition thaw_fast_header ::
  "platform \<Rightarrow> nat \<Rightarrow> vm \<Rightarrow> (int \<times> int \<times> int \<times> word64) option" where
  "thaw_fast_header P r s =
     (case thaw_fast P r s of None \<Rightarrow> None
      | Some (n, s') \<Rightarrow> map_option chunk_header (deref s' (Some r)))"

subsection \<open>The pinning rules, as a specification\<close>

text \<open>The pinned result codes.\<close>

definition is_pinned_result :: "freeze_result \<Rightarrow> bool" where
  "is_pinned_result r =
     (r = freeze_pinned_cs \<or> r = freeze_pinned_native \<or> r = freeze_pinned_monitor)"

text \<open>
  The classification of one visited frame, written from the rules of the specification:
  \<open>Some\<close> of the pinned code, or \<open>None\<close> for a frame that is frozen.  Where two rules
  apply to one frame, the rule the code tests first is taken.  A frame that is neither
  compiled nor interpreted cannot be frozen, but for the stub at the top of a forced
  preemption (\<open>pre\<close> says that the freeze is a forced preemption, \<open>tp\<close> that the
  frame is the start frame).
\<close>

definition spec_frame_pin :: "bool \<Rightarrow> bool \<Rightarrow> frame \<Rightarrow> freeze_result option" where
  "spec_frame_pin pre tp f =
     (if f_kind f = Compiled then
        (if \<not> f_has_oop_map f then Some freeze_pinned_native
         else if f_owning_locks f then Some freeze_pinned_monitor
         else None)
      else if f_kind f = Interpreted then
        (if f_owning_locks f then Some freeze_pinned_monitor
         else if f_method_is_native f then Some freeze_pinned_native
         else None)
      else if pre \<and> tp \<and> f_kind f = Stub then None
      else Some freeze_pinned_native)"

text \<open>
  A frame that is frozen and after which the walk goes on to its sender: a compiled or
  interpreted frame that is not pinned and is not the bottom-most frame of the
  continuation, or the stub at the top of a forced preemption.
\<close>

definition walks_on :: "platform \<Rightarrow> int \<Rightarrow> bool \<Rightarrow> bool \<Rightarrow> frame \<Rightarrow> bool" where
  "walks_on P bottom pre tp f =
     (spec_frame_pin pre tp f = None \<and>
      (f_kind f = Compiled \<and> f_frame_bottom f < bottom - 1 \<or>
       f_kind f = Interpreted \<and>
         f_frame_bottom (adjust_interpreted_frame_unextended_sp P f) < bottom - 1 \<or>
       pre \<and> tp \<and> f_kind f = Stub))"


subsection \<open>The mixed-frames flag of the tail\<close>

text \<open>The wrapper's tail is a chunk whose \<^verbatim>\<open>HAS_MIXED_FRAMES\<close> flag is set.\<close>

definition tail_mixed :: "vm \<Rightarrow> bool" where
  "tail_mixed s = (case deref s (w_tail s) of None \<Rightarrow> False | Some c \<Rightarrow> has_mixed_frames c)"

subsection \<open>The return-pc slot of the top frame\<close>

text \<open>
  Invariant 4 of the chunk: in a chunk that is not empty the word below \<open>sp\<close>, the
  return-pc slot of the topmost frozen frame, is the chunk's \<open>pc\<close>; and the states in
  which every chunk of the heap satisfies it.
\<close>

definition pc_slot_ok :: "platform \<Rightarrow> stackChunk \<Rightarrow> bool" where
  "pc_slot_ok P c = (\<not> is_empty c \<longrightarrow> mem c (sp c - sender_sp_ret_address_offset P) = pc c)"

definition heap_pc_ok :: "platform \<Rightarrow> vm \<Rightarrow> bool" where
  "heap_pc_ok P s = (\<forall>i<length (heap s). pc_slot_ok P (heap s ! i))"

subsection \<open>Frame conditions\<close>

text \<open>
  Relations between the state before and after a step, used to follow the chunks through
  the slow paths.  \<open>tail_rel R\<close>: the step keeps the wrapper's tail reference and the
  other chunks, and changes the tail chunk within \<open>R\<close>.  \<open>others_kept h\<close>: the
  wrapper's tail is a valid reference, every other chunk is the chunk of \<open>h\<close> at the
  same place, or an empty chunk allocated since.  \<open>freeze_post\<close>: what a slow freeze
  with result \<open>r\<close> leaves of the heap \<open>h\<close>.
\<close>

definition tail_rel :: "(stackChunk \<Rightarrow> stackChunk \<Rightarrow> bool) \<Rightarrow> vm \<Rightarrow> vm \<Rightarrow> bool" where
  "tail_rel R s s' =
     (w_tail s' = w_tail s \<and> length (heap s') = length (heap s) \<and>
      (\<forall>i<length (heap s).
         if Some i = w_tail s then R (heap s ! i) (heap s' ! i) else heap s' ! i = heap s ! i))"

definition others_kept :: "stackChunk list \<Rightarrow> vm \<Rightarrow> bool" where
  "others_kept h s' =
     (length h \<le> length (heap s') \<and>
      (\<exists>r. w_tail s' = Some r \<and> r < length (heap s')) \<and>
      (\<forall>i<length (heap s'). Some i \<noteq> w_tail s' \<longrightarrow>
         (if i < length h then heap s' ! i = h ! i else is_empty (heap s' ! i))))"

definition freeze_post :: "freeze_result \<Rightarrow> stackChunk list \<Rightarrow> vm \<Rightarrow> bool" where
  "freeze_post r h s' =
     (if r = freeze_ok \<or> r = freeze_ok_bottom then others_kept h s' else heap s' = h)"

text \<open>
  Relations on a chunk, for a set \<open>A\<close> of offsets: \<open>same_hdr\<close> keeps \<open>stack_size\<close>,
  \<open>sp\<close>, \<open>pc\<close> and the words at \<open>A\<close>; \<open>thawed_hdr\<close> keeps \<open>stack_size\<close> and the
  words at \<open>A\<close>, and leaves the chunk empty or with the \<open>sp\<close> and \<open>pc\<close> of one of the
  frames \<open>cfs\<close>.
\<close>

definition same_hdr :: "int set \<Rightarrow> stackChunk \<Rightarrow> stackChunk \<Rightarrow> bool" where
  "same_hdr A c c' =
     (stack_size c' = stack_size c \<and> sp c' = sp c \<and> pc c' = pc c \<and>
      (\<forall>a\<in>A. mem c' a = mem c a))"

definition thawed_hdr :: "int set \<Rightarrow> frame list \<Rightarrow> stackChunk \<Rightarrow> stackChunk \<Rightarrow> bool" where
  "thawed_hdr A cfs c c' =
     (stack_size c' = stack_size c \<and> (\<forall>a\<in>A. mem c' a = mem c a) \<and>
      (is_empty c' \<or> (\<exists>g\<in>set cfs. sp c' = f_sp g \<and> pc c' = f_pc g)))"

subsection \<open>The chunk list of a continuation\<close>

text \<open>
  The chunks reached from reference \<open>r\<close> through the parent links, at most \<open>n\<close> of
  them, and the heaps in which the tail and every parent link is a valid reference.
\<close>

fun chunk_list :: "stackChunk list \<Rightarrow> nat \<Rightarrow> nat option \<Rightarrow> stackChunk list" where
  "chunk_list h 0 r = []"
| "chunk_list h (Suc n) None = []"
| "chunk_list h (Suc n) (Some i) =
     (if i < length h then h ! i # chunk_list h n (parent (h ! i)) else [])"

definition closed_heap :: "stackChunk list \<Rightarrow> nat option \<Rightarrow> bool" where
  "closed_heap h t =
     ((case t of None \<Rightarrow> True | Some i \<Rightarrow> i < length h) \<and>
      (\<forall>i < length h. case parent (h ! i) of None \<Rightarrow> True | Some p \<Rightarrow> p < length h))"

subsection \<open>A concrete platform and concrete states\<close>

text \<open>
  The x86-64 values of the platform constants (two metadata words, the return address
  one word below a frame's sp, 16-byte frame alignment, 8-byte words), with a small code
  cache: the method returning to \<open>0x1000\<close> has a 600-word frame taking 3 words of
  stack arguments, the one returning to \<open>0x2000\<close> an 8-word frame taking 1, every
  other one a 4-word frame taking none.
\<close>

definition x86_64 :: platform where
  "x86_64 =
     \<lparr>metadata_words = 2, sender_sp_ret_address_offset = 1, align_wiggle = 1,
      frame_alignment = 16, LogBytesPerWord = 3,
      frame_align_words = (\<lambda>n. n mod 2),
      frame_align_pointer = (\<lambda>p. p - p mod 2),
      patch_stack_pd = (\<lambda>fsp hsp cm st. st(fsp - 2 := cm (hsp - 2))),
      cont_returnBarrier = 0xBA44,
      vm_page_size = 4096,
      UseContinuationFastPath = True, UseZGC = False, PreserveFramePointer = False,
      stack_chunk_max_size = 0,
      instance_size = (\<lambda>n. n + 4),
      allocator = (\<lambda>_. Alloc_TLAB),
      cb_frame_size = (\<lambda>a. if a = 0x1000 then 600 else if a = 0x2000 then 8 else 4),
      cb_stack_argsize = (\<lambda>a. if a = 0x1000 then 3 else if a = 0x2000 then 1 else 0),
      interpreter_contains = (\<lambda>a. a \<ge> 0xF000),
      chunk_frames = (\<lambda>c. []),
      c_stack_at = (\<lambda>d. 1000000 - 256 * int d),
      frame_top = (\<lambda>K f a i. f_unextended_sp f + (if (K = Interpreted) = i then a else 0)),
      adjust_interpreted_frame_unextended_sp = (\<lambda>f. f),
      new_heap_frame = (\<lambda>K f c.
         (f\<lparr>f_sp := f_unextended_sp c - f_cb_frame_size f,
            f_unextended_sp := f_unextended_sp c - f_cb_frame_size f,
            f_frame_bottom := f_unextended_sp c\<rparr>, c)),
      relativize_interpreted_frame_metadata = (\<lambda>f hf m. m),
      patch_pc = (\<lambda>f a m. m(f_sp f - 1 := a)),
      patch_pd = (\<lambda>hf c m. m),
      patch_sender_sp = (\<lambda>hf a m. m),
      set_top_frame_metadata_pd = (\<lambda>f m. m(f_sp f - 1 := f_pc f)),
      do_barriers = mem,
      do_barriers_frame = (\<lambda>f. mem),
      new_entry_frame = (\<lambda>a b. empty_frame\<lparr>f_empty := False, f_sp := a,
                                      f_unextended_sp := a, f_pc := b, f_raw_pc := b\<rparr>),
      new_stack_frame = (\<lambda>K hf c b.
         (hf\<lparr>f_sp := f_unextended_sp c - f_cb_frame_size hf,
             f_unextended_sp := f_unextended_sp c - f_cb_frame_size hf\<rparr>, c)),
      set_interpreter_frame_bottom = (\<lambda>f a m. m),
      derelativize_interpreted_frame_metadata = (\<lambda>hf f m. m),
      deoptimize = (\<lambda>f m. (f\<lparr>f_deoptimized := True\<rparr>, m)),
      fix_thawed_frame = (\<lambda>c f m. m),
      push_pd = (\<lambda>f m. m),
      real_fp = f_fp\<rparr>"

text \<open>A thread mounted on a continuation with no chunk, its entry at word 100.\<close>

definition vm0 :: vm where
  "vm0 =
     \<lparr>heap = [], cont_tail = None, w_tail = None,
      entrySP = 100, entryPC = 0xE000, entry_argsize = 0, entry_pinned = False,
      is_preempted = False,
      stack = (\<lambda>a. word_of_int (7 * a)),
      cont_fastpath = True, cont_fastpath_thread_state = True, held_monitor_count = 0,
      has_pending_exception = False, is_interp_only_mode = False,
      stack_overflow_limit = 4096,
      last_Java_sp = 0, last_Java_pc = 0, allocations = 0,
      barriers = False, preempt = False, bottom_address = 100,
      fr_size = 0, fr_align_size = 0, th_fastpath = 0, top_unextended_sp = 0\<rparr>"

text \<open>
  A 40-word chunk holding 10 live words below \<open>sp = 30\<close>, and the state whose tail
  it is, entered with 3 words of stack arguments.
\<close>

definition chunk1 :: stackChunk where
  "chunk1 =
     \<lparr>stack_size = 40, sp = 30, argsize = 0, max_size = 10, pc = 0x2000, parent = None,
      has_mixed_frames = False, is_gc_mode = False, has_bitmap = False,
      requires_barriers = False, bitmap = (\<lambda>_. False),
      mem = (\<lambda>a. if a = 29 then 0x2000 else 0)\<rparr>"

definition vm1 :: vm where
  "vm1 = vm0\<lparr>heap := [chunk1], cont_tail := Some 0, w_tail := Some 0, entry_argsize := 3\<rparr>"

text \<open>
  A 20-word chunk holding one 4-word frame, and its child, a 610-word chunk whose only
  frame is the 600-word frame of the method returning to \<open>0x1000\<close>, with its 3 words
  of stack arguments at the bottom; the state whose tail is the child.
\<close>

definition chunk4 :: stackChunk where
  "chunk4 =
     \<lparr>stack_size = 20, sp = 16, argsize = 0, max_size = 4, pc = 0x5000, parent = None,
      has_mixed_frames = False, is_gc_mode = False, has_bitmap = False,
      requires_barriers = False, bitmap = (\<lambda>_. False),
      mem = (\<lambda>a. if a = 15 then 0x5000 else word_of_int a)\<rparr>"

definition chunk5 :: stackChunk where
  "chunk5 =
     \<lparr>stack_size = 610, sp = 7, argsize = 3, max_size = 603, pc = 0x1000, parent = Some 0,
      has_mixed_frames = False, is_gc_mode = False, has_bitmap = False,
      requires_barriers = False, bitmap = (\<lambda>_. False),
      mem = (\<lambda>a. if a = 6 then 0x1000 else word_of_int a)\<rparr>"

definition vm5 :: vm where
  "vm5 = vm0\<lparr>heap := [chunk4, chunk5], cont_tail := Some 1, w_tail := Some 1,
             entrySP := 1000\<rparr>"

text \<open>
  Frames of a thread: the yield stub, a compiled frame that is frozen, a compiled frame
  that owns a monitor, and the same frame without the monitor.
\<close>

definition yield_stub :: frame where
  "yield_stub = empty_frame\<lparr>f_kind := Stub, f_empty := False, f_sp := 88,
                            f_unextended_sp := 88, f_cb_frame_size := 2, f_frame_bottom := 90\<rparr>"

definition compiled_frame :: frame where
  "compiled_frame =
     empty_frame\<lparr>f_kind := Compiled, f_empty := False, f_sp := 90, f_unextended_sp := 90,
                 f_pc := 0x3000, f_raw_pc := 0x3000, f_has_oop_map := True,
                 f_frame_bottom := 94, f_cb_frame_size := 4\<rparr>"

definition locking_frame :: frame where
  "locking_frame =
     empty_frame\<lparr>f_kind := Compiled, f_empty := False, f_sp := 94, f_unextended_sp := 94,
                 f_pc := 0x4000, f_raw_pc := 0x4000, f_has_oop_map := True,
                 f_owning_locks := True, f_frame_bottom := 100, f_cb_frame_size := 6\<rparr>"

definition bottom_frame :: frame where
  "bottom_frame =
     empty_frame\<lparr>f_kind := Compiled, f_empty := False, f_sp := 94, f_unextended_sp := 94,
                 f_pc := 0x4000, f_raw_pc := 0x4000, f_has_oop_map := True,
                 f_frame_bottom := 100, f_cb_frame_size := 6\<rparr>"

text \<open>The state \<open>vm1\<close> with no stack arguments and one monitor held by the thread.\<close>

definition vm_locked :: vm where
  "vm_locked = vm1\<lparr>held_monitor_count := 1, entry_argsize := 0\<rparr>"

text \<open>
  The same platform with a frame cursor for the chunk that the slow freeze of
  \<open>compiled_frame\<close> and \<open>bottom_frame\<close> produces: the two frames at offsets 2 and 6
  of a 12-word chunk.
\<close>

definition x86_64f :: platform where
  "x86_64f = x86_64\<lparr>chunk_frames := (\<lambda>c. filter (\<lambda>f. sp c \<le> f_sp f)
       [compiled_frame\<lparr>f_sp := 2, f_unextended_sp := 2, f_frame_bottom := 6\<rparr>,
        bottom_frame\<lparr>f_sp := 6, f_unextended_sp := 6, f_frame_bottom := 12\<rparr>])\<rparr>"

text \<open>
  A chunk of two 600-word frames of the method returning to \<open>0x1000\<close>, with 3 words of
  stack arguments at the bottom, and the state whose tail it is.
\<close>

definition chunk6 :: stackChunk where
  "chunk6 =
     \<lparr>stack_size = 1213, sp = 10, argsize = 3, max_size = 1203, pc = 0x1000, parent = None,
      has_mixed_frames = False, is_gc_mode = False, has_bitmap = False,
      requires_barriers = False, bitmap = (\<lambda>_. False),
      mem = (\<lambda>a. if a = 9 \<or> a = 609 then 0x1000 else word_of_int a)\<rparr>"

definition vm6 :: vm where
  "vm6 = vm0\<lparr>heap := [chunk6], cont_tail := Some 0, w_tail := Some 0, entrySP := 2000\<rparr>"

section \<open>Properties\<close>

declare freeze.simps [simp del] thaw_one_frame.simps [simp del]

subsection \<open>Heap access\<close>

lemma deref_store_same:
  "i < length (heap s) \<Longrightarrow> deref (store i c s) (Some i) = Some c"
  by (simp add: deref_def store_def)

lemma deref_Some_iff:
  "deref s (Some r) = Some c \<longleftrightarrow> r < length (heap s) \<and> heap s ! r = c"
  by (auto simp: deref_def)

lemma x86_64_constants [simp]:
  "metadata_words x86_64 = 2" "sender_sp_ret_address_offset x86_64 = 1"
  "align_wiggle x86_64 = 1" "LogBytesPerWord x86_64 = 3"
  "frame_align_words x86_64 = (\<lambda>n. n mod 2)"
  "frame_align_pointer x86_64 = (\<lambda>p. p - p mod 2)"
  "cont_returnBarrier x86_64 = 0xBA44" "vm_page_size x86_64 = 4096"
  by (simp_all add: x86_64_def)

subsection \<open>Fast freeze\<close>

lemma freeze_fast_copy_deref:
  "r < length (heap s) \<Longrightarrow>
   deref (freeze_fast_copy P frame_sp r chunk start s) (Some r) =
     Some (chunk\<lparr>mem := (copy_words (stack s) (cont_stack_top P frame_sp - metadata_words P)
                     (mem chunk) (start - cont_size P s frame_sp - metadata_words P)
                     (cont_size P s frame_sp + metadata_words P))
                  (start - entry_argsize s - sender_sp_ret_address_offset P := pc chunk),
              sp := start - cont_size P s frame_sp,
              pc := stack s (cont_stack_top P frame_sp - sender_sp_ret_address_offset P)\<rparr>)"
  by (simp add: freeze_fast_copy_def Let_def unwind_frames_def cont_write_def deref_def store_def
        cont_size_def cont_stack_bottom_def)

text \<open>
  C1.  A fast freeze into the reusable tail chunk \<open>c\<close> succeeds, leaves the chunk in
  place and publishes it.  Let \<open>csize\<close> be the size of the frozen region of the stack,
  \<open>a\<close> the continuation's \<open>argsize\<close> (the stack arguments of the bottom-most frozen
  frame), and \<open>st\<close> the thread stack as the freeze reads it: the stack before the
  freeze, with the platform's patch of the bottom frame when \<open>c\<close> is not empty.  The
  freeze leaves the stack as \<open>st\<close>.
  If \<open>c\<close> is not empty, its \<open>sp\<close> decreases by \<open>csize - a\<close> and its \<open>max_size\<close>
  increases by \<open>csize - a\<close>.  If \<open>c\<close> is empty there is no overlap: \<open>sp\<close> decreases
  by \<open>csize\<close>, \<open>max_size\<close> is \<open>csize\<close> and the chunk's \<open>argsize\<close> is \<open>a\<close>.
  The words of the chunk afterwards are: the chunk's previous \<open>pc\<close> in the return-pc
  slot of the bottom-most frozen frame; the words of \<open>st\<close> from
  \<open>frame_sp\<close> on at the \<open>csize + metadata_words\<close> offsets from
  \<open>sp - metadata_words\<close> on; the previous words everywhere else.  So for a non-empty
  chunk the \<open>a\<close> words that were on top of the previous top frame, at offsets
  \<open>sp c, ..., sp c + a - 1\<close>, are overwritten by the top \<open>a\<close> words of the frozen region.
\<close>

theorem freeze_fast_overlap_accounting:
  assumes "w_tail s = Some r" and "deref s (Some r) = Some c"
      and "csize = cont_size P s frame_sp" and "a = entry_argsize s"
      and "st = (if sp c < stack_size c
                 then patch_stack_pd P (cont_stack_bottom P s - a) (sp c) (mem c) (stack s)
                 else stack s)"
  shows "\<exists>s' c'. freeze_fast P True frame_sp s = Some (True, s') \<and>
           deref s' (Some r) = Some c' \<and> w_tail s' = Some r \<and> cont_tail s' = Some r \<and>
           stack s' = st \<and>
           (if sp c < stack_size c
            then sp c' = sp c - (csize - a) \<and> max_size c' = max_size c + (csize - a) \<and>
                 argsize c' = argsize c
            else sp c' = sp c - csize \<and> max_size c' = csize \<and> argsize c' = a) \<and>
           pc c' = st (frame_sp + metadata_words P - sender_sp_ret_address_offset P) \<and>
           (\<forall>i. mem c' i =
              (if i = sp c' + csize - a - sender_sp_ret_address_offset P then pc c
               else if sp c' - metadata_words P \<le> i \<and> i < sp c' + csize
               then st (frame_sp + (i - (sp c' - metadata_words P)))
               else mem c i)) \<and>
           (sp c < stack_size c \<and> 0 < sender_sp_ret_address_offset P \<and>
            0 \<le> metadata_words P \<and> a \<le> csize \<longrightarrow>
              (\<forall>i. 0 \<le> i \<and> i < a \<longrightarrow>
                 mem c' (sp c + i) = st (cont_stack_bottom P s - a + i)))"
proof -
  from assms(2) have r: "r < length (heap s)" by (simp add: deref_Some_iff)
  have rs: "r < length (heap (s\<lparr>stack := m\<rparr>))" for m using r by simp
  have cs: "cont_size P (s\<lparr>stack := m\<rparr>) frame_sp = cont_size P s frame_sp" for m
    by (simp add: cont_size_def cont_stack_bottom_def)
  have fields: "w_tail (freeze_fast_copy P frame_sp r ch start s0) = Some r"
    "cont_tail (freeze_fast_copy P frame_sp r ch start s0) = Some r"
    "stack (freeze_fast_copy P frame_sp r ch start s0) = stack s0"
    if "w_tail s0 = Some r" for ch start s0
    using that
    by (simp_all add: freeze_fast_copy_def Let_def unwind_frames_def cont_write_def store_def)
  show ?thesis
  proof (cases "sp c < stack_size c")
    case True
    let ?m = "patch_stack_pd P (cont_stack_bottom P s - entry_argsize s) (sp c) (mem c) (stack s)"
    let ?s1 = "s\<lparr>stack := ?m\<rparr>"
    let ?c1 = "c\<lparr>max_size := max_size c + cont_size P s frame_sp - entry_argsize s\<rparr>"
    have ff: "freeze_fast P True frame_sp s =
        Some (True, freeze_fast_copy P frame_sp r ?c1 (sp c + entry_argsize s) ?s1)"
      using True assms(1,2) by (simp add: freeze_fast_def Let_def)
    have w: "w_tail ?s1 = Some r" using assms(1) by simp
    note d = freeze_fast_copy_deref [where s = ?s1 and chunk = ?c1 and P = P
        and frame_sp = frame_sp and start = "sp c + entry_argsize s", OF rs]
    show ?thesis
      unfolding ff using True assms(3,4,5)
      apply (simp add: d fields [OF w] cs)
      apply (simp add: copy_words_def cont_stack_top_def cont_size_def cont_stack_bottom_def)
      apply (simp add: add.commute)
      done
  next
    case False
    let ?c1 = "c\<lparr>max_size := cont_size P s frame_sp, argsize := entry_argsize s\<rparr>"
    have ff: "freeze_fast P True frame_sp s =
        Some (True, freeze_fast_copy P frame_sp r ?c1 (sp c) s)"
      using False assms(1,2) by (simp add: freeze_fast_def Let_def)
    note d = freeze_fast_copy_deref [where chunk = ?c1 and P = P
        and frame_sp = frame_sp and start = "sp c", OF r]
    show ?thesis
      unfolding ff using False assms(3,4,5)
      apply (simp add: d fields [OF assms(1)])
      apply (simp add: copy_words_def cont_stack_top_def cont_size_def cont_stack_bottom_def)
      done
  qed
qed

theorem freeze_fast_overlap_accounting_witness:
  "w_tail vm1 = Some 0 \<and> deref vm1 (Some 0) = Some chunk1 \<and> sp chunk1 < stack_size chunk1 \<and>
   cont_size x86_64 vm1 88 = 9 \<and> entry_argsize vm1 = 3 \<and>
   (\<exists>s' c'. freeze_fast x86_64 True 88 vm1 = Some (True, s') \<and> deref s' (Some 0) = Some c' \<and>
       cont_tail s' = Some 0 \<and> stack s' = (stack vm1)(94 := 0) \<and>
       sp c' = 24 \<and> max_size c' = 16 \<and> pc c' = 623 \<and>
       mem c' 22 = 616 \<and> mem c' 28 = 0 \<and> mem c' 29 = 0x2000 \<and> mem c' 31 = 679 \<and>
       mem c' 33 = mem chunk1 33)"
proof -
  have h1: "w_tail vm1 = Some 0" by (simp add: vm1_def)
  have h2: "deref vm1 (Some 0) = Some chunk1" by (simp add: vm1_def deref_def)
  have h3: "sp chunk1 < stack_size chunk1" by (simp add: chunk1_def)
  have h4: "(9 :: int) = cont_size x86_64 vm1 88"
    by (simp add: cont_size_def cont_stack_bottom_def cont_stack_top_def vm1_def vm0_def)
  have h5: "(3 :: int) = entry_argsize vm1" by (simp add: vm1_def)
  have h6: "(stack vm1)(94 := 0) = (if sp chunk1 < stack_size chunk1
                 then patch_stack_pd x86_64 (cont_stack_bottom x86_64 vm1 - 3) (sp chunk1)
                        (mem chunk1) (stack vm1)
                 else stack vm1)"
    by (simp add: x86_64_def cont_stack_bottom_def vm1_def vm0_def chunk1_def)
  have h7: "sp chunk1 = 30" "max_size chunk1 = 10" "pc chunk1 = 0x2000"
    by (simp_all add: chunk1_def)
  have st: "stack vm1 i = word_of_int (7 * i)" for i by (simp add: vm1_def vm0_def)
  from freeze_fast_overlap_accounting [OF h1 h2 h4 h5 h6] h3
  obtain s' c' where r:
    "freeze_fast x86_64 True 88 vm1 = Some (True, s')" "deref s' (Some 0) = Some c'"
    "cont_tail s' = Some 0" "stack s' = (stack vm1)(94 := 0)"
    "sp c' = sp chunk1 - (9 - 3)" "max_size c' = max_size chunk1 + (9 - 3)"
    "pc c' = ((stack vm1)(94 := 0))
               (88 + metadata_words x86_64 - sender_sp_ret_address_offset x86_64)"
    "\<forall>i. mem c' i =
        (if i = sp c' + 9 - 3 - sender_sp_ret_address_offset x86_64 then pc chunk1
         else if sp c' - metadata_words x86_64 \<le> i \<and> i < sp c' + 9
         then ((stack vm1)(94 := 0)) (88 + (i - (sp c' - metadata_words x86_64)))
         else mem chunk1 i)"
    by auto
  from r(5,6) have v: "sp c' = 24" "max_size c' = 16" by (simp_all add: h7)
  from r(7) have p: "pc c' = 623" by (simp add: st)
  from r(8) have m: "mem c' i =
        (if i = sp c' + 9 - 3 - sender_sp_ret_address_offset x86_64 then pc chunk1
         else if sp c' - metadata_words x86_64 \<le> i \<and> i < sp c' + 9
         then ((stack vm1)(94 := 0)) (88 + (i - (sp c' - metadata_words x86_64)))
         else mem chunk1 i)" for i by (rule spec)
  have "mem c' 22 = 616" "mem c' 28 = 0" "mem c' 29 = 0x2000" "mem c' 31 = 679"
    "mem c' 33 = mem chunk1 33"
    by (simp_all add: m v h7 st)
  with r(1-4) v p h1 h2 h3 h4 [symmetric] h5 [symmetric] show ?thesis by blast
qed

lemma allocate_chunk_Some:
  assumes "allocate_chunk P n s = (Some r, s1)"
  shows "r = length (heap s) \<and>
         (\<exists>rb. heap s1 = heap s @ [fresh_chunk n (last_nonempty_chunk s) rb]) \<and>
         w_tail s1 = Some r \<and> cont_tail s1 = cont_tail s \<and> stack s1 = stack s \<and>
         entry_argsize s1 = entry_argsize s \<and> entrySP s1 = entrySP s \<and>
         entryPC s1 = entryPC s \<and>
         has_pending_exception s1 = has_pending_exception s"
proof (cases "stack_chunk_max_size P > 0 \<and> instance_size P n \<ge> stack_chunk_max_size P")
  case True
  then show ?thesis using assms by (simp add: allocate_chunk_def Let_def)
next
  case False
  show ?thesis
  proof (cases "allocator P (allocations s)")
    case Alloc_TLAB
    then show ?thesis using assms False by (auto simp: allocate_chunk_def Let_def)
  next
    case (Alloc_Slow clr rb)
    then show ?thesis using assms False by (auto simp: allocate_chunk_def Let_def)
  next
    case Alloc_OOME
    then show ?thesis using assms False by (simp add: allocate_chunk_def Let_def)
  qed
qed

lemma allocate_chunk_None:
  assumes "allocate_chunk P n s = (None, s1)"
  shows "heap s1 = heap s \<and> w_tail s1 = w_tail s \<and> cont_tail s1 = cont_tail s \<and>
         stack s1 = stack s"
proof (cases "stack_chunk_max_size P > 0 \<and> instance_size P n \<ge> stack_chunk_max_size P")
  case True
  then show ?thesis using assms by (auto simp: allocate_chunk_def Let_def split: if_splits)
next
  case False
  then show ?thesis using assms
    by (cases "allocator P (allocations s)") (auto simp: allocate_chunk_def Let_def)
qed

lemma cont_size_cong:
  "entrySP s1 = entrySP s \<Longrightarrow> entry_argsize s1 = entry_argsize s \<Longrightarrow>
   cont_size P s1 frame_sp = cont_size P s frame_sp"
  by (simp add: cont_size_def cont_stack_bottom_def)

lemma freeze_fast_new_chunk_fields:
  assumes r: "r < length (heap s1)"
    and cs: "cont_size P s1 frame_sp = cont_size P s frame_sp"
    and a3: "w_tail s1 = Some r" and a4: "stack s1 = stack s"
    and a5: "entry_argsize s1 = entry_argsize s"
    and s': "s' = freeze_fast_copy P frame_sp r
          ((fresh_chunk (cont_size P s frame_sp + metadata_words P) par rb)
             \<lparr>max_size := cont_size P s frame_sp, argsize := entry_argsize s1\<rparr>)
          (cont_size P s frame_sp + metadata_words P) s1"
  shows "\<exists>c'. cont_tail s' = Some r \<and> deref s' (Some r) = Some c' \<and>
           stack_size c' = cont_size P s frame_sp + metadata_words P \<and>
           sp c' = metadata_words P \<and>
           argsize c' = entry_argsize s \<and>
           max_size c' = cont_size P s frame_sp \<and>
           pc c' = stack s (cont_stack_top P frame_sp - sender_sp_ret_address_offset P)"
proof -
  have ct: "cont_tail (freeze_fast_copy P frame_sp r ch st s1) = Some r" for ch st
    using a3 by (simp add: freeze_fast_copy_def Let_def cont_write_def store_def unwind_frames_def)
  show ?thesis unfolding s'
    by (simp add: freeze_fast_copy_deref [OF r] cs ct fresh_chunk_def a4 a5)
qed

text \<open>
  C8.  A fast freeze that finds no reusable tail chunk asks the allocator for
  \<open>cont_size + metadata_words\<close> words.  When the allocator hands out a chunk (and no
  exception is pending): the chunk has that stack size; if the fast-path flag was
  cleared during the allocation or the new chunk requires barriers, \<open>freeze_fast\<close>
  gives up and \<open>try_freeze_fast\<close> is the slow freeze from the state after the
  allocation; otherwise the freeze succeeds with \<open>freeze_ok\<close>, the new chunk is the
  published tail, and it has \<open>sp = metadata_words\<close>, the continuation's \<open>argsize\<close>,
  \<open>max_size = cont_size\<close> and the topmost frame's return address as \<open>pc\<close>.
\<close>

theorem freeze_fast_new_chunk:
  assumes alloc: "allocate_chunk P (cont_size P s frame_sp + metadata_words P) s = (Some r, s1)"
      and noexc: "\<not> has_pending_exception s"
  shows "deref s1 (Some r) \<noteq> None \<and>
         stack_size (heap s1 ! r) = cont_size P s frame_sp + metadata_words P \<and>
         (if \<not> cont_fastpath s1 \<or> barriers s1
          then freeze_fast P False frame_sp s = Some (False, s1) \<and>
               try_freeze_fast P False frame_sp fs s = freeze_slow P fs s1
          else \<exists>s' c'. freeze_fast P False frame_sp s = Some (True, s') \<and>
                 try_freeze_fast P False frame_sp fs s = Some (freeze_ok, s') \<and>
                 cont_tail s' = Some r \<and> deref s' (Some r) = Some c' \<and>
                 stack_size c' = cont_size P s frame_sp + metadata_words P \<and>
                 sp c' = metadata_words P \<and>
                 argsize c' = entry_argsize s \<and>
                 max_size c' = cont_size P s frame_sp \<and>
                 pc c' = stack s (cont_stack_top P frame_sp - sender_sp_ret_address_offset P))"
proof -
  note A = allocate_chunk_Some [OF alloc]
  from A have a1: "r = length (heap s)" by (rule conjunct1)
  from A have ex: "\<exists>rb. heap s1 = heap s @ [fresh_chunk (cont_size P s frame_sp + metadata_words P) (last_nonempty_chunk s) rb]"
    by (elim conjE)
  from A have a3: "w_tail s1 = Some r" by (elim conjE)
  from A have a4: "stack s1 = stack s" by (elim conjE)
  from A have a5: "entry_argsize s1 = entry_argsize s" by (elim conjE)
  from A have a6: "entrySP s1 = entrySP s" by (elim conjE)
  from A have a7: "has_pending_exception s1 = has_pending_exception s" by (elim conjE)
  from ex obtain rb where
    a2: "heap s1 = heap s @ [fresh_chunk (cont_size P s frame_sp + metadata_words P) (last_nonempty_chunk s) rb]" ..
  have r: "r < length (heap s1)" by (simp add: a1 a2)
  have d: "deref s1 (Some r) =
      Some (fresh_chunk (cont_size P s frame_sp + metadata_words P) (last_nonempty_chunk s) rb)"
    by (simp add: deref_def a1 a2)
  have cs: "cont_size P s1 frame_sp = cont_size P s frame_sp"
    by (rule cont_size_cong [OF a6 a5])
  have ss: "stack_size (heap s1 ! r) = cont_size P s frame_sp + metadata_words P"
    by (simp add: a1 a2 fresh_chunk_def)
  have dn: "deref s1 (Some r) \<noteq> None" by (simp add: d)
  show ?thesis
  proof (cases "\<not> cont_fastpath s1 \<or> barriers s1")
    case True
    then have ff: "freeze_fast P False frame_sp s = Some (False, s1)"
      using alloc by (simp add: freeze_fast_def Let_def)
    have "try_freeze_fast P False frame_sp fs s = freeze_slow P fs s1"
      using noexc a7 by (simp add: ff try_freeze_fast_def)
    with True ff ss dn show ?thesis by simp
  next
    case False
    define s' where "s' = freeze_fast_copy P frame_sp r
          ((fresh_chunk (cont_size P s frame_sp + metadata_words P) (last_nonempty_chunk s) rb)
             \<lparr>max_size := cont_size P s frame_sp, argsize := entry_argsize s1\<rparr>)
          (cont_size P s frame_sp + metadata_words P) s1"
    have ff: "freeze_fast P False frame_sp s = Some (True, s')"
      using alloc d False unfolding s'_def by (simp add: freeze_fast_def Let_def)
    have tf: "try_freeze_fast P False frame_sp fs s = Some (freeze_ok, s')"
      by (simp add: ff try_freeze_fast_def)
    from freeze_fast_new_chunk_fields [OF r cs a3 a4 a5 s'_def]
    obtain c' where "cont_tail s' = Some r \<and> deref s' (Some r) = Some c' \<and>
           stack_size c' = cont_size P s frame_sp + metadata_words P \<and>
           sp c' = metadata_words P \<and>
           argsize c' = entry_argsize s \<and>
           max_size c' = cont_size P s frame_sp \<and>
           pc c' = stack s (cont_stack_top P frame_sp - sender_sp_ret_address_offset P)" ..
    with ff tf have "\<exists>s' c'. freeze_fast P False frame_sp s = Some (True, s') \<and>
                 try_freeze_fast P False frame_sp fs s = Some (freeze_ok, s') \<and>
                 cont_tail s' = Some r \<and> deref s' (Some r) = Some c' \<and>
                 stack_size c' = cont_size P s frame_sp + metadata_words P \<and>
                 sp c' = metadata_words P \<and>
                 argsize c' = entry_argsize s \<and>
                 max_size c' = cont_size P s frame_sp \<and>
                 pc c' = stack s (cont_stack_top P frame_sp - sender_sp_ret_address_offset P)"
      by (intro exI [of _ s'] exI [of _ c']) simp
    with False ss dn show ?thesis by simp
  qed
qed

theorem freeze_fast_new_chunk_witness:
  "allocate_chunk x86_64 (cont_size x86_64 vm0 88 + metadata_words x86_64) vm0
     = (Some 0, snd (allocate_chunk x86_64 (cont_size x86_64 vm0 88 + metadata_words x86_64) vm0)) \<and>
   \<not> has_pending_exception vm0 \<and> cont_size x86_64 vm0 88 = 10 \<and>
   (\<exists>s' c'. try_freeze_fast x86_64 False 88 [] vm0 = Some (freeze_ok, s') \<and>
      cont_tail s' = Some 0 \<and> deref s' (Some 0) = Some c' \<and>
      stack_size c' = 12 \<and> sp c' = 2 \<and> argsize c' = 0 \<and> max_size c' = 10 \<and>
      pc c' = stack vm0 89)"
proof -
  define s1 where "s1 = snd (allocate_chunk x86_64 (cont_size x86_64 vm0 88 + metadata_words x86_64) vm0)"
  have cs: "cont_size x86_64 vm0 88 = 10"
    by (simp add: cont_size_def cont_stack_bottom_def cont_stack_top_def vm0_def)
  have al: "allocate_chunk x86_64 (cont_size x86_64 vm0 88 + metadata_words x86_64) vm0 = (Some 0, s1)"
    unfolding s1_def by (simp add: allocate_chunk_def Let_def x86_64_def vm0_def)
  have ne: "\<not> has_pending_exception vm0" by (simp add: vm0_def)
  have fp: "cont_fastpath s1" "\<not> barriers s1"
    unfolding s1_def by (simp_all add: allocate_chunk_def Let_def x86_64_def vm0_def)
  have ea: "entry_argsize vm0 = 0" by (simp add: vm0_def)
  have top: "cont_stack_top x86_64 88 = 90" by (simp add: cont_stack_top_def)
  from freeze_fast_new_chunk [OF al ne, of "[]"] fp
  obtain s' c' where "try_freeze_fast x86_64 False 88 [] vm0 = Some (freeze_ok, s')"
      "cont_tail s' = Some 0" "deref s' (Some 0) = Some c'"
      "stack_size c' = cont_size x86_64 vm0 88 + metadata_words x86_64"
      "sp c' = metadata_words x86_64" "argsize c' = entry_argsize vm0"
      "max_size c' = cont_size x86_64 vm0 88"
      "pc c' = stack vm0 (cont_stack_top x86_64 88 - sender_sp_ret_address_offset x86_64)"
    by auto
  then have "try_freeze_fast x86_64 False 88 [] vm0 = Some (freeze_ok, s') \<and>
      cont_tail s' = Some 0 \<and> deref s' (Some 0) = Some c' \<and>
      stack_size c' = 12 \<and> sp c' = 2 \<and> argsize c' = 0 \<and> max_size c' = 10 \<and>
      pc c' = stack vm0 89"
    by (simp add: cs ea top)
  then show ?thesis using al ne cs unfolding s1_def by blast
qed


subsection \<open>Thaw sizing\<close>

lemma int32_id: "- (2 ^ 31) \<le> x \<Longrightarrow> x < 2 ^ 31 \<Longrightarrow> int32 x = x"
  by (simp add: int32_def)

text \<open>
  C9.  Let the sizes fit an \<^verbatim>\<open>int\<close>: the size in bytes plus 300 is below \<open>2^31\<close>.
  For the tail chunk, or its parent when the tail is empty, \<open>thaw_size\<close> is
  \<open>max_size + metadata_words + 2 * align_wiggle + 200\<close> words.
  \<open>prepare_thaw_internal\<close> returns that size in bytes when the stack-overflow check
  passes and 0 when it fails; it returns 0 exactly when the check fails, which is when
  the size plus 300 bytes exceeds a page and does not fit between the entry and the
  thread's overflow limit.  In either case the chunks and the thread stack are left as
  they were; only an empty tail is replaced by its parent.
\<close>

theorem prepare_thaw_size_or_overflow:
  assumes tail: "deref s (cont_tail s) = Some c0"
      and par: "is_empty c0 \<longrightarrow> deref s (parent c0) = Some p0"
      and chunk: "chunk = (if is_empty c0 then p0 else c0)"
      and nonneg: "0 \<le> max_size chunk" "0 \<le> metadata_words P" "0 \<le> align_wiggle P"
      and fits: "(max_size chunk + metadata_words P + 2 * align_wiggle P + 200)
                   * 2 ^ LogBytesPerWord P + 300 < 2 ^ 31"
      and words: "w = max_size chunk + metadata_words P + 2 * align_wiggle P + 200"
      and bytes: "b = w * 2 ^ LogBytesPerWord P"
  shows "thaw_size P chunk = w \<and>
         (\<exists>n s'. prepare_thaw_internal P return_barrier s = Some (n, s') \<and>
            n = (if stack_overflow_check P s (b + 300) (to_bytes P (entrySP s)) then b else 0) \<and>
            (n = 0 \<longleftrightarrow> \<not> stack_overflow_check P s (b + 300) (to_bytes P (entrySP s))) \<and>
            (\<not> stack_overflow_check P s (b + 300) (to_bytes P (entrySP s)) \<longleftrightarrow>
               vm_page_size P < b + 300 \<and>
               to_bytes P (entrySP s) - (b + 300) < stack_overflow_limit s) \<and>
            heap s' = heap s \<and> stack s' = stack s \<and>
            cont_tail s' = (if is_empty c0 then parent c0 else cont_tail s))"
proof -
  have w0: "0 < w" using nonneg words by simp
  have p1: "(1::int) \<le> 2 ^ LogBytesPerWord P" by simp
  have wb: "w \<le> b" unfolding bytes using w0 p1 by (simp add: mult_le_cancel_left1)
  have b0: "0 < b" using w0 wb by simp
  have bf: "b + 300 < 2 ^ 31" using fits words bytes by simp
  have tsz: "thaw_size P chunk = w"
    unfolding thaw_size_def words [symmetric] using w0 wb bf by (intro int32_id) simp_all
  have bsz: "int32 (w * 2 ^ LogBytesPerWord P) = b"
    unfolding bytes [symmetric] using b0 bf by (intro int32_id) simp_all
  have b3: "int32 (b + 300) = b + 300"
    using b0 bf by (intro int32_id) simp_all
  have soc: "stack_overflow_check P (s\<lparr>cont_tail := x\<rparr>) a c = stack_overflow_check P s a c"
    for x a c
    by (simp add: stack_overflow_check_def)
  show ?thesis
  proof (cases "is_empty c0")
    case True
    with chunk have ch: "p0 = chunk" by simp
    from True par have "deref s (parent c0) = Some chunk" by (simp add: ch)
    with True tail b0 show ?thesis
      by (simp add: prepare_thaw_internal_def Let_def tsz bsz b3 soc)
         (auto simp: stack_overflow_check_def)
  next
    case False
    with chunk have ch: "c0 = chunk" by simp
    from False tail b0 show ?thesis
      by (simp add: prepare_thaw_internal_def Let_def ch tsz bsz b3)
         (auto simp: stack_overflow_check_def)
  qed
qed

theorem prepare_thaw_size_or_overflow_witness:
  "deref vm1 (cont_tail vm1) = Some chunk1 \<and> \<not> is_empty chunk1 \<and>
   0 \<le> max_size chunk1 \<and> 0 \<le> metadata_words x86_64 \<and> 0 \<le> align_wiggle x86_64 \<and>
   (max_size chunk1 + metadata_words x86_64 + 2 * align_wiggle x86_64 + 200)
      * 2 ^ LogBytesPerWord x86_64 + 300 < (2 :: int) ^ 31 \<and>
   thaw_size x86_64 chunk1 = 214 \<and>
   (\<exists>s'. prepare_thaw_internal x86_64 False vm1 = Some (1712, s') \<and> heap s' = heap vm1 \<and>
         stack s' = stack vm1)"
proof -
  have d: "deref vm1 (cont_tail vm1) = Some chunk1" by (simp add: vm1_def deref_def)
  have ne: "\<not> is_empty chunk1" by (simp add: is_empty_def chunk1_def)
  have p: "is_empty chunk1 \<longrightarrow> deref vm1 (parent chunk1) = Some chunk1" using ne by simp
  have c: "chunk1 = (if is_empty chunk1 then chunk1 else chunk1)" by simp
  have nn: "0 \<le> max_size chunk1" "0 \<le> metadata_words x86_64" "0 \<le> align_wiggle x86_64"
    by (simp_all add: chunk1_def)
  have f: "(max_size chunk1 + metadata_words x86_64 + 2 * align_wiggle x86_64 + 200)
      * 2 ^ LogBytesPerWord x86_64 + 300 < (2 :: int) ^ 31" by (simp add: chunk1_def)
  have w: "(214 :: int) = max_size chunk1 + metadata_words x86_64 + 2 * align_wiggle x86_64 + 200"
    by (simp add: chunk1_def)
  have b: "(1712 :: int) = 214 * 2 ^ LogBytesPerWord x86_64" by simp
  have ok: "stack_overflow_check x86_64 vm1 (1712 + 300) (to_bytes x86_64 (entrySP vm1))"
    by (simp add: stack_overflow_check_def to_bytes_def)
  from prepare_thaw_size_or_overflow [OF d p c nn f w b, of False]
  obtain n s' where r: "thaw_size x86_64 chunk1 = 214"
    "prepare_thaw_internal x86_64 False vm1 = Some (n, s')"
    "n = (if stack_overflow_check x86_64 vm1 (1712 + 300) (to_bytes x86_64 (entrySP vm1))
          then 1712 else 0)"
    "heap s' = heap vm1" "stack s' = stack vm1"
    by blast
  from r(3) ok have "n = 1712" by simp
  with r d ne nn f show ?thesis by auto
qed

text \<open>
  Beyond that bound the \<^verbatim>\<open>int\<close> wraps: for a chunk with \<open>max_size = 2^28\<close> the size
  in bytes is negative, the check passes, and the negative size is returned.
\<close>

lemma prepare_thaw_wraps:
  "prepare_thaw_internal x86_64 False (vm1\<lparr>heap := [chunk1\<lparr>max_size := 2 ^ 28\<rparr>]\<rparr>)
     = Some (- 2147482016, vm1\<lparr>heap := [chunk1\<lparr>max_size := 2 ^ 28\<rparr>]\<rparr>)"
  by (simp add: prepare_thaw_internal_def Let_def deref_def vm1_def vm0_def chunk1_def
      is_empty_def thaw_size_def int32_def stack_overflow_check_def to_bytes_def)

subsection \<open>Fast thaw\<close>

text \<open>
  C5 (as amended).  A fast thaw of chunk \<open>c\<close> leaves the chunk's words alone.  If the
  live size \<open>stack_size - sp\<close> is below 500 words, the whole chunk is thawed and the
  chunk is left empty: \<open>sp = stack_size\<close>, \<open>argsize = 0\<close>, \<open>max_size = 0\<close>.
  Otherwise exactly one compiled frame and its stack arguments are thawed; if that frame
  was the last one of the chunk, the chunk is left empty in the same way and its
  \<open>pc\<close> is not touched; if not, \<open>sp\<close> advances by the frame's size, \<open>max_size\<close>
  decreases by it, and \<open>pc\<close> becomes the return pc into the next frame.
  The stack afterwards is the stack before with the thawed words (\<open>tsize\<close> of them,
  and the metadata words below) copied below the entry, and the return-pc slot of the
  bottom-most thawed frame patched; every other word of the stack is as before.
\<close>

theorem thaw_fast_bulk_or_single_frame:
  assumes "deref s (Some r) = Some c"
      and "fsz = cb_frame_size P (mem c (sp c - sender_sp_ret_address_offset P))"
      and "asz = cb_stack_argsize P (mem c (sp c - sender_sp_ret_address_offset P))"
      and "bulk = (stack_size c - sp c < 500)"
      and "empties = (bulk \<or> sp c + fsz \<ge> stack_size c - argsize c)"
      and "tsize = (if bulk then stack_size c - sp c else fsz + asz)"
      and "a = (if bulk then argsize c else asz)"
  shows "\<exists>n s' c'. thaw_fast P r s = Some (n, s') \<and> deref s' (Some r) = Some c' \<and>
     mem c' = mem c \<and>
     n = frame_align_pointer P (entrySP s - tsize) \<and>
     (\<forall>i. stack s' i =
        (if i = frame_align_pointer P (entrySP s - a) - sender_sp_ret_address_offset P
         then (if empties \<and> parent c = None then entryPC s else cont_returnBarrier P)
         else if n - metadata_words P \<le> i \<and> i < n + tsize then mem c (sp c + (i - n))
         else stack s i)) \<and>
     entry_argsize s' = a \<and>
     (if empties
      then sp c' = stack_size c \<and> argsize c' = 0 \<and> max_size c' = 0 \<and> pc c' = pc c
      else sp c' = sp c + fsz \<and> argsize c' = argsize c \<and> max_size c' = max_size c - fsz \<and>
           pc c' = mem c (sp c + fsz - sender_sp_ret_address_offset P))"
proof -
  from assms(1) have r: "r < length (heap s)" by (simp add: deref_Some_iff)
  have ds: "deref (patch_return P b l (st\<lparr>entry_argsize := x\<rparr>)) (Some r) = deref st (Some r)"
    for b l st x
    by (simp add: patch_return_def Let_def deref_def)
  have ds2: "deref ((store r ch s)\<lparr>stack := m\<rparr>) (Some r) = Some ch" for ch m
    using r by (simp add: deref_def store_def)
  show ?thesis
  proof (cases "stack_size c - sp c < 500")
    case True
    then show ?thesis using assms
      apply (simp add: thaw_fast_def Let_def TEST_THAW_ONE_CHUNK_FRAME_def threshold_def ds ds2)
      apply (simp add: patch_return_def Let_def store_def copy_words_def)
      done
  next
    case False
    then show ?thesis using assms
      apply (simp add: thaw_fast_def Let_def TEST_THAW_ONE_CHUNK_FRAME_def threshold_def ds ds2
           stream_pc_def stream_is_done_def)
      apply (simp add: patch_return_def Let_def store_def copy_words_def)
      done
  qed
qed

theorem thaw_fast_bulk_or_single_frame_witness:
  "deref vm1 (Some 0) = Some chunk1 \<and> stack_size chunk1 - sp chunk1 < 500 \<and>
   (\<exists>s' c'. thaw_fast x86_64 0 vm1 = Some (90, s') \<and> deref s' (Some 0) = Some c' \<and>
      sp c' = 40 \<and> argsize c' = 0 \<and> max_size c' = 0 \<and>
      stack s' 87 = stack vm1 87 \<and> stack s' 88 = mem chunk1 28 \<and> stack s' 92 = mem chunk1 32 \<and>
      stack s' 99 = entryPC vm1 \<and> stack s' 100 = stack vm1 100)"
proof -
  have d: "deref vm1 (Some 0) = Some chunk1" by (simp add: vm1_def deref_def)
  have lt: "stack_size chunk1 - sp chunk1 < 500" by (simp add: chunk1_def)
  have v: "stack_size chunk1 = 40" "sp chunk1 = 30" "argsize chunk1 = 0" "entrySP vm1 = 100"
    "parent chunk1 = None"
    by (simp_all add: chunk1_def vm1_def vm0_def)
  have h: "True = (stack_size chunk1 - sp chunk1 < 500)"
    "True = (True \<or> sp chunk1 + fsz \<ge> stack_size chunk1 - argsize chunk1)"
    "(10 :: int) = (if True then stack_size chunk1 - sp chunk1 else fsz + asz)"
    "(0 :: int) = (if True then argsize chunk1 else asz)" for fsz asz :: int
    by (simp_all add: v)
  from thaw_fast_bulk_or_single_frame [where P = x86_64, OF d refl refl h]
  obtain n s' c' where r: "thaw_fast x86_64 0 vm1 = Some (n, s')" "deref s' (Some 0) = Some c'"
    "n = frame_align_pointer x86_64 (entrySP vm1 - 10)"
    "\<forall>i. stack s' i =
        (if i = frame_align_pointer x86_64 (entrySP vm1 - 0) - sender_sp_ret_address_offset x86_64
         then (if True \<and> parent chunk1 = None then entryPC vm1 else cont_returnBarrier x86_64)
         else if n - metadata_words x86_64 \<le> i \<and> i < n + 10 then mem chunk1 (sp chunk1 + (i - n))
         else stack vm1 i)"
    "sp c' = stack_size chunk1" "argsize c' = 0" "max_size c' = 0"
    by auto
  from r(3) have n: "n = 90" by (simp add: v)
  from r(4) have st: "stack s' i =
        (if i = frame_align_pointer x86_64 (entrySP vm1 - 0) - sender_sp_ret_address_offset x86_64
         then (if True \<and> parent chunk1 = None then entryPC vm1 else cont_returnBarrier x86_64)
         else if n - metadata_words x86_64 \<le> i \<and> i < n + 10 then mem chunk1 (sp chunk1 + (i - n))
         else stack vm1 i)" for i by (rule spec)
  have "stack s' 87 = stack vm1 87" "stack s' 88 = mem chunk1 28" "stack s' 92 = mem chunk1 32"
    "stack s' 99 = entryPC vm1" "stack s' 100 = stack vm1 100"
    by (simp_all add: st v n)
  with r(1,2,5-7) n d lt v show ?thesis by auto
qed

text \<open>
  The claim as stated fails for a chunk of 500 words or more whose top frame is its only
  frame: the frame has 600 words, yet \<open>sp\<close> moves from 7 to 610 and not to 607,
  \<open>max_size\<close> drops from 603 to 0 and not to 3, and \<open>pc\<close> keeps its value.
\<close>

theorem thaw_fast_last_frame_counterexample:
  "deref vm5 (Some 1) = Some chunk5 \<and>
   \<not> stack_size chunk5 - sp chunk5 < threshold \<and>
   cb_frame_size x86_64 (stream_pc x86_64 chunk5 (sp chunk5)) = 600 \<and>
   thaw_fast_header x86_64 1 vm5 = Some (610, 0, 0, 0x1000) \<and>
   sp chunk5 + 600 \<noteq> 610 \<and> max_size chunk5 - 600 \<noteq> 0"
  by (simp add: thaw_fast_header_def thaw_fast_def Let_def deref_def vm5_def vm0_def chunk5_def
      threshold_def TEST_THAW_ONE_CHUNK_FRAME_def stream_pc_def stream_is_done_def x86_64_def
      store_def patch_return_def chunk_header_def)

subsection \<open>Slow freeze: pinning\<close>

lemma stack_overflow_none:
  "stack_overflow_limit s \<le> c_stack_at P d \<Longrightarrow> stack_overflow P d s = (False, s)"
  by (simp add: stack_overflow_def)

lemma freeze_pinned_frame:
  assumes "stack_overflow_limit s \<le> c_stack_at P d"
      and "spec_frame_pin (preempt s) is_top f = Some r"
      and "f_kind f = Interpreted \<and> f_method_is_native f \<longrightarrow> preempt s \<and> is_top"
  shows "freeze P (f # rest) s caller ca ci is_top d = Some (r, s, caller)"
  using assms
  by (auto simp: freeze.simps stack_overflow_none spec_frame_pin_def Let_def split: if_splits)

lemma finalize_freeze_tail_not_pinned:
  "finalize_freeze_tail P r chunk s = Some (res, s', c') \<Longrightarrow> res = freeze_ok_bottom"
  by (auto simp: finalize_freeze_tail_def Let_def)

lemma recurse_java_pass:
  assumes "f_frame_bottom f < bottom_address s - 1"
  shows "recurse_freeze_java_frame P K f s caller fsize asize rec =
           rec (s\<lparr>fr_size := fr_size s + fsize\<rparr>) caller asize (K = Interpreted)"
  using assms by (simp add: recurse_freeze_java_frame_def Let_def)

lemma recurse_compiled_pinned:
  assumes "recurse_freeze_java_frame P Compiled f s caller
             (f_frame_bottom f + f_stack_argsize f - frame_top P Compiled f ca ci)
             (f_stack_argsize f) rec = Some (r, s', c')"
      and "is_pinned_result r"
  shows "recurse_freeze_compiled_frame P f s caller ca ci rec = Some (r, s', c')"
  using assms
  by (cases r) (simp_all add: recurse_freeze_compiled_frame_def Let_def is_pinned_result_def)

lemma recurse_interpreted_pinned:
  assumes "recurse_freeze_java_frame P Interpreted (adjust_interpreted_frame_unextended_sp P f) s caller
             (f_fp (adjust_interpreted_frame_unextended_sp P f) + metadata_words P
                + f_max_locals (adjust_interpreted_frame_unextended_sp P f)
                - frame_top P Interpreted (adjust_interpreted_frame_unextended_sp P f) ca ci)
             (f_stack_argsize (adjust_interpreted_frame_unextended_sp P f)) rec = Some (r, s', c')"
      and "is_pinned_result r"
  shows "recurse_freeze_interpreted_frame P f s caller ca ci rec = Some (r, s', c')"
  using assms
  by (cases r) (simp_all add: recurse_freeze_interpreted_frame_def Let_def is_pinned_result_def)

lemma freeze_walks_on:
  assumes no: "stack_overflow_limit s \<le> c_stack_at P d"
      and w: "walks_on P (bottom_address s) (preempt s) is_top f"
      and ns: "f_kind f \<noteq> Stub"
  shows "\<exists>s1 a i. heap s1 = heap s \<and> cont_tail s1 = cont_tail s \<and> preempt s1 = preempt s \<and>
           bottom_address s1 = bottom_address s \<and>
           stack_overflow_limit s1 = stack_overflow_limit s \<and>
           (\<forall>r s' c'. freeze P rest s1 caller a i False (Suc d) = Some (r, s', c') \<and>
                is_pinned_result r \<longrightarrow>
              freeze P (f # rest) s caller ca ci is_top d = Some (r, s', c'))"
proof (cases "f_kind f = Compiled")
  case True
  with w have p: "f_has_oop_map f" "\<not> f_owning_locks f" "f_frame_bottom f < bottom_address s - 1"
    by (auto simp: walks_on_def spec_frame_pin_def split: if_splits)
  let ?fs = "f_frame_bottom f + f_stack_argsize f - frame_top P Compiled f ca ci"
  let ?s1 = "s\<lparr>fr_size := fr_size s + ?fs\<rparr>"
  have fr: "freeze P (f # rest) s caller ca ci is_top d =
      recurse_freeze_compiled_frame P f s caller ca ci
        (\<lambda>s' c' a' i'. freeze P rest s' c' a' i' False (Suc d))"
    using True p no by (simp add: freeze.simps stack_overflow_none Let_def)
  have "\<forall>r s' c'. freeze P rest ?s1 caller (f_stack_argsize f) False False (Suc d) = Some (r, s', c') \<and>
                is_pinned_result r \<longrightarrow>
              freeze P (f # rest) s caller ca ci is_top d = Some (r, s', c')"
    using p(3) by (auto simp: fr intro!: recurse_compiled_pinned simp: recurse_java_pass)
  then show ?thesis
    by (intro exI [of _ ?s1] exI [of _ "f_stack_argsize f"] exI [of _ False]) simp
next
  case False
  with w ns have k: "f_kind f = Interpreted" by (auto simp: walks_on_def)
  let ?f = "adjust_interpreted_frame_unextended_sp P f"
  from w k have p: "\<not> f_owning_locks f" "\<not> f_method_is_native f"
      "f_frame_bottom ?f < bottom_address s - 1"
    by (auto simp: walks_on_def spec_frame_pin_def split: if_splits)
  let ?fs = "f_fp ?f + metadata_words P + f_max_locals ?f - frame_top P Interpreted ?f ca ci"
  let ?s1 = "s\<lparr>fr_size := fr_size s + ?fs\<rparr>"
  have fr: "freeze P (f # rest) s caller ca ci is_top d =
      recurse_freeze_interpreted_frame P f s caller ca ci
        (\<lambda>s' c' a' i'. freeze P rest s' c' a' i' False (Suc d))"
    using k p no by (auto simp: freeze.simps stack_overflow_none Let_def)
  have "\<forall>r s' c'. freeze P rest ?s1 caller (f_stack_argsize ?f) True False (Suc d) = Some (r, s', c') \<and>
                is_pinned_result r \<longrightarrow>
              freeze P (f # rest) s caller ca ci is_top d = Some (r, s', c')"
    using p(3) by (auto simp: fr intro!: recurse_interpreted_pinned simp: recurse_java_pass)
  then show ?thesis
    by (intro exI [of _ ?s1] exI [of _ "f_stack_argsize ?f"] exI [of _ True]) simp
qed

lemma spec_frame_pin_pinned: "spec_frame_pin pre tp f = Some r \<Longrightarrow> is_pinned_result r"
  by (auto simp: spec_frame_pin_def is_pinned_result_def split: if_splits)

lemma spec_frame_pin_java:
  "f_kind f = Compiled \<or> f_kind f = Interpreted \<Longrightarrow>
   spec_frame_pin pre tp f = spec_frame_pin pre' tp' f"
  by (auto simp: spec_frame_pin_def)


lemma freeze_first_pinned:
  assumes "\<forall>i\<le>length pre. stack_overflow_limit s \<le> c_stack_at P (d + i)"
      and "\<forall>i<length pre. walks_on P (bottom_address s) (preempt s) (is_top \<and> i = 0) (pre ! i)
             \<and> f_kind (pre ! i) \<noteq> Stub"
      and "spec_frame_pin (preempt s) (is_top \<and> pre = []) f = Some r"
      and "f_kind f = Interpreted \<and> f_method_is_native f \<longrightarrow> preempt s \<and> is_top \<and> pre = []"
  shows "\<exists>s'. freeze P (pre @ f # rest) s caller ca ci is_top d = Some (r, s', caller) \<and>
           heap s' = heap s \<and> cont_tail s' = cont_tail s"
  using assms
proof (induction pre arbitrary: s ca ci is_top d)
  case Nil
  from Nil(1) have "stack_overflow_limit s \<le> c_stack_at P d" by simp
  moreover from Nil(3) have "spec_frame_pin (preempt s) is_top f = Some r" by simp
  moreover from Nil(4) have
    "f_kind f = Interpreted \<and> f_method_is_native f \<longrightarrow> preempt s \<and> is_top" by simp
  ultimately have "freeze P (f # rest) s caller ca ci is_top d = Some (r, s, caller)"
    by (rule freeze_pinned_frame)
  then show ?case by simp
next
  case (Cons g pre)
  from Cons.prems(2) have w0: "walks_on P (bottom_address s) (preempt s) is_top g"
    and ns0: "f_kind g \<noteq> Stub"
    by (auto dest: spec [of _ 0])
  from Cons.prems(2) have wr:
    "\<forall>i<length pre. walks_on P (bottom_address s) (preempt s) False (pre ! i)
        \<and> f_kind (pre ! i) \<noteq> Stub"
    by (auto dest: spec [of _ "Suc i" for i])
  from Cons.prems(1) have no: "stack_overflow_limit s \<le> c_stack_at P d"
    by (auto dest: spec [of _ 0])
  from Cons.prems(4) have nn: "\<not> (f_kind f = Interpreted \<and> f_method_is_native f)" by simp
  have nos: "\<forall>i\<le>length pre. stack_overflow_limit s \<le> c_stack_at P (Suc d + i)"
  proof (intro allI impI)
    fix i assume "i \<le> length pre"
    then have "Suc i \<le> length (g # pre)" by simp
    with Cons.prems(1) have "stack_overflow_limit s \<le> c_stack_at P (d + Suc i)" by blast
    then show "stack_overflow_limit s \<le> c_stack_at P (Suc d + i)" by simp
  qed
  have pin: "spec_frame_pin (preempt s) False f = Some r"
  proof (cases "f_kind f = Compiled \<or> f_kind f = Interpreted")
    case True
    from spec_frame_pin_java [OF this, of "preempt s" False "preempt s" "is_top \<and> g # pre = []"]
      Cons.prems(3) show ?thesis by simp
  next
    case False
    with Cons.prems(3) show ?thesis by (simp add: spec_frame_pin_def)
  qed
  from freeze_walks_on [OF no w0 ns0, of "pre @ f # rest" caller ca ci]
  obtain s1 a i where s1: "heap s1 = heap s" "cont_tail s1 = cont_tail s" "preempt s1 = preempt s"
     "bottom_address s1 = bottom_address s" "stack_overflow_limit s1 = stack_overflow_limit s"
     and step: "\<And>r s' c'. freeze P (pre @ f # rest) s1 caller a i False (Suc d) = Some (r, s', c') \<Longrightarrow>
                is_pinned_result r \<Longrightarrow>
              freeze P (g # pre @ f # rest) s caller ca ci is_top d = Some (r, s', c')"
    by blast
  have "\<exists>s'. freeze P (pre @ f # rest) s1 caller a i False (Suc d) = Some (r, s', caller) \<and>
           heap s' = heap s1 \<and> cont_tail s' = cont_tail s1"
  proof (rule Cons.IH)
    show "\<forall>i\<le>length pre. stack_overflow_limit s1 \<le> c_stack_at P (Suc d + i)"
      using nos s1 by simp
    show "\<forall>i<length pre. walks_on P (bottom_address s1) (preempt s1) (False \<and> i = 0) (pre ! i)
            \<and> f_kind (pre ! i) \<noteq> Stub"
      using wr s1 by simp
    show "spec_frame_pin (preempt s1) (False \<and> pre = []) f = Some r"
      using pin s1 by simp
    show "f_kind f = Interpreted \<and> f_method_is_native f \<longrightarrow> preempt s1 \<and> False \<and> pre = []"
      using nn by simp
  qed
  then obtain s' where "freeze P (pre @ f # rest) s1 caller a i False (Suc d) = Some (r, s', caller)"
     "heap s' = heap s1" "cont_tail s' = cont_tail s1" by blast
  with step [OF this(1) spec_frame_pin_pinned [OF Cons.prems(3)]] s1 show ?case by simp
qed



lemma finalize_freeze_result:
  assumes "finalize_freeze P callee asize s caller = Some (r, s', c')"
  shows "r = freeze_ok_bottom \<or> r = freeze_exception"
proof -
  have t: "finalize_freeze_tail P a b c = Some (r, s', c') \<Longrightarrow> r = freeze_ok_bottom" for a b c
    by (auto simp: finalize_freeze_tail_def Let_def)
  show ?thesis using assms
    unfolding finalize_freeze_def Let_def
    by (auto split: option.splits bool.splits prod.splits if_splits dest: t)
qed

lemma recurse_java_pinned_from_rec:
  assumes "recurse_freeze_java_frame P K f s caller fsize asize rec = Some (r, s', c')"
      and "is_pinned_result r"
  shows "rec (s\<lparr>fr_size := fr_size s + fsize\<rparr>) caller asize (K = Interpreted) = Some (r, s', c')"
proof (cases "f_frame_bottom f \<ge> bottom_address s - 1")
  case True
  with assms(1) have "finalize_freeze P f asize (s\<lparr>fr_size := fr_size s + fsize\<rparr>) caller = Some (r, s', c')"
    by (simp add: recurse_freeze_java_frame_def Let_def)
  from finalize_freeze_result [OF this] assms(2) show ?thesis
    by (auto simp: is_pinned_result_def)
next
  case False
  with assms(1) show ?thesis by (simp add: recurse_freeze_java_frame_def Let_def)
qed

lemma pinned_code: "is_pinned_result r \<Longrightarrow> freeze_result_code freeze_ok_bottom < freeze_result_code r"
  by (auto simp: is_pinned_result_def)

lemma not_pinned_low:
  "\<not> freeze_result_code freeze_ok_bottom < freeze_result_code r \<Longrightarrow> \<not> is_pinned_result r"
  by (auto simp: is_pinned_result_def)

lemma recurse_compiled_pinned_from_rec:
  assumes "recurse_freeze_compiled_frame P f s caller ca ci rec = Some (r, s', c')"
      and "is_pinned_result r"
  shows "\<exists>s1 a i. heap s1 = heap s \<and> cont_tail s1 = cont_tail s \<and> w_tail s1 = w_tail s \<and>
           stack s1 = stack s \<and> rec s1 caller a i = Some (r, s', c')"
proof -
  let ?fs = "f_frame_bottom f + f_stack_argsize f - frame_top P Compiled f ca ci"
  obtain r0 s0 c0 where j: "recurse_freeze_java_frame P Compiled f s caller ?fs (f_stack_argsize f) rec
      = Some (r0, s0, c0)"
    using assms(1) by (auto simp: recurse_freeze_compiled_frame_def Let_def split: option.splits)
  have "r0 = r \<and> s0 = s' \<and> c0 = c'"
  proof (cases "freeze_result_code freeze_ok_bottom < freeze_result_code r0")
    case True
    with assms(1) j show ?thesis by (simp add: recurse_freeze_compiled_frame_def Let_def)
  next
    case False
    with assms(1) j have "r = freeze_ok"
      by (auto simp: recurse_freeze_compiled_frame_def Let_def split: option.splits prod.splits)
    with assms(2) show ?thesis by (simp add: is_pinned_result_def)
  qed
  with j have "recurse_freeze_java_frame P Compiled f s caller ?fs (f_stack_argsize f) rec
      = Some (r, s', c')" by simp
  from recurse_java_pinned_from_rec [OF this assms(2)] show ?thesis
    by (intro exI [of _ "s\<lparr>fr_size := fr_size s + ?fs\<rparr>"] exI [of _ "f_stack_argsize f"]
          exI [of _ False]) simp
qed

lemma recurse_interpreted_pinned_from_rec:
  assumes "recurse_freeze_interpreted_frame P f0 s caller ca ci rec = Some (r, s', c')"
      and "is_pinned_result r"
  shows "\<exists>s1 a i. heap s1 = heap s \<and> cont_tail s1 = cont_tail s \<and> w_tail s1 = w_tail s \<and>
           stack s1 = stack s \<and> rec s1 caller a i = Some (r, s', c')"
proof -
  let ?f = "adjust_interpreted_frame_unextended_sp P f0"
  let ?fs = "f_fp ?f + metadata_words P + f_max_locals ?f - frame_top P Interpreted ?f ca ci"
  obtain r0 s0 c0 where j: "recurse_freeze_java_frame P Interpreted ?f s caller ?fs (f_stack_argsize ?f) rec
      = Some (r0, s0, c0)"
    using assms(1) by (auto simp: recurse_freeze_interpreted_frame_def Let_def split: option.splits)
  have "r0 = r \<and> s0 = s' \<and> c0 = c'"
  proof (cases "freeze_result_code freeze_ok_bottom < freeze_result_code r0")
    case True
    with assms(1) j show ?thesis by (simp add: recurse_freeze_interpreted_frame_def Let_def)
  next
    case False
    with assms(1) j have "r = freeze_ok"
      by (auto simp: recurse_freeze_interpreted_frame_def Let_def split: option.splits prod.splits)
    with assms(2) show ?thesis by (simp add: is_pinned_result_def)
  qed
  with j have "recurse_freeze_java_frame P Interpreted ?f s caller ?fs (f_stack_argsize ?f) rec
      = Some (r, s', c')" by simp
  from recurse_java_pinned_from_rec [OF this assms(2)] show ?thesis
    by (intro exI [of _ "s\<lparr>fr_size := fr_size s + ?fs\<rparr>"] exI [of _ "f_stack_argsize ?f"]
          exI [of _ True]) simp
qed

lemma recurse_stub_pinned_from_rec:
  assumes "recurse_freeze_stub_frame P f sf s caller rec = Some (r, s', c')"
      and "is_pinned_result r"
  shows "(heap s' = heap s \<and> cont_tail s' = cont_tail s \<and> w_tail s' = w_tail s \<and>
            stack s' = stack s) \<or>
         (\<exists>s1 a i. heap s1 = heap s \<and> cont_tail s1 = cont_tail s \<and> w_tail s1 = w_tail s \<and>
           stack s1 = stack s \<and> rec s1 caller a i = Some (r, s', c'))"
proof (cases "\<not> f_has_oop_map sf \<or> f_owning_locks sf")
  case True
  with assms(1) show ?thesis
    by (auto simp: recurse_freeze_stub_frame_def Let_def split: if_splits)
next
  case False
  let ?s1 = "s\<lparr>fr_size := fr_size s + f_cb_frame_size f\<rparr>"
  obtain r0 s0 c0 where j: "recurse_freeze_compiled_frame P sf ?s1 caller 0 False rec = Some (r0, s0, c0)"
    using assms(1) False
    by (auto simp: recurse_freeze_stub_frame_def Let_def split: option.splits)
  have "r0 = r \<and> s0 = s' \<and> c0 = c'"
  proof (cases "freeze_result_code freeze_ok_bottom < freeze_result_code r0")
    case True
    with assms(1) j False show ?thesis by (simp add: recurse_freeze_stub_frame_def Let_def)
  next
    case F: False
    with assms(1) j False have "r = freeze_ok"
      by (auto simp: recurse_freeze_stub_frame_def Let_def split: option.splits prod.splits)
    with assms(2) show ?thesis by (simp add: is_pinned_result_def)
  qed
  with j have "recurse_freeze_compiled_frame P sf ?s1 caller 0 False rec = Some (r, s', c')" by simp
  from recurse_compiled_pinned_from_rec [OF this assms(2)] show ?thesis by auto
qed

lemma freeze_pinned_unchanged:
  assumes "freeze P fs s caller ca ci is_top d = Some (r, s', c')" and "is_pinned_result r"
  shows "heap s' = heap s \<and> cont_tail s' = cont_tail s \<and> w_tail s' = w_tail s \<and>
         stack s' = stack s"
  using assms
proof (induction fs arbitrary: s caller ca ci is_top d rule: length_induct)
  case (1 fs)
  show ?case
  proof (cases fs)
    case Nil
    with "1.prems" show ?thesis by (simp add: freeze.simps)
  next
    case (Cons f senders)
    note fr = "1.prems"(1) [unfolded Cons freeze.simps Let_def]
    have no: "\<not> fst (stack_overflow P d s)"
      using fr "1.prems"(2) by (auto simp: is_pinned_result_def split: if_splits)
    then have s1: "snd (stack_overflow P d s) = s"
      by (auto simp: stack_overflow_def split: if_splits)
    have IH: "\<And>xs s0 c0 a0 i0 t0 d0. length xs < length fs \<Longrightarrow>
        freeze P xs s0 c0 a0 i0 t0 d0 = Some (r, s', c') \<Longrightarrow>
        heap s' = heap s0 \<and> cont_tail s' = cont_tail s0 \<and> w_tail s' = w_tail s0 \<and>
         stack s' = stack s0"
      using "1.IH" "1.prems"(2) by blast
    consider
      (direct) "s' = s"
    | (comp) "recurse_freeze_compiled_frame P f s caller ca ci
               (\<lambda>s' c' a' i'. freeze P senders s' c' a' i' False (Suc d)) = Some (r, s', c')"
    | (interp) "recurse_freeze_interpreted_frame P f s caller ca ci
               (\<lambda>s' c' a' i'. freeze P senders s' c' a' i' False (Suc d)) = Some (r, s', c')"
    | (stub) sf rest where "senders = sf # rest"
         "recurse_freeze_stub_frame P f sf s caller
               (\<lambda>s' c' a' i'. freeze P rest s' c' a' i' False (Suc d)) = Some (r, s', c')"
      using fr no s1 by (auto split: if_splits list.splits)
    then show ?thesis
    proof cases
      case direct
      then show ?thesis by simp
    next
      case comp
      from recurse_compiled_pinned_from_rec [OF comp "1.prems"(2)]
      obtain s1 a i where e: "heap s1 = heap s" "cont_tail s1 = cont_tail s" "w_tail s1 = w_tail s"
          "stack s1 = stack s" "freeze P senders s1 caller a i False (Suc d) = Some (r, s', c')"
        by blast
      from IH [OF _ e(5)] Cons e(1-4) show ?thesis by simp
    next
      case interp
      from recurse_interpreted_pinned_from_rec [OF interp "1.prems"(2)]
      obtain s1 a i where e: "heap s1 = heap s" "cont_tail s1 = cont_tail s" "w_tail s1 = w_tail s"
          "stack s1 = stack s" "freeze P senders s1 caller a i False (Suc d) = Some (r, s', c')"
        by blast
      from IH [OF _ e(5)] Cons e(1-4) show ?thesis by simp
    next
      case stub
      from recurse_stub_pinned_from_rec [OF stub(2) "1.prems"(2)]
      show ?thesis
      proof
        assume "heap s' = heap s \<and> cont_tail s' = cont_tail s \<and> w_tail s' = w_tail s \<and>
            stack s' = stack s"
        then show ?thesis .
      next
        assume "\<exists>s1 a i. heap s1 = heap s \<and> cont_tail s1 = cont_tail s \<and> w_tail s1 = w_tail s \<and>
           stack s1 = stack s \<and> freeze P rest s1 caller a i False (Suc d) = Some (r, s', c')"
        then obtain s1 a i where e: "heap s1 = heap s" "cont_tail s1 = cont_tail s"
          "w_tail s1 = w_tail s" "stack s1 = stack s"
          "freeze P rest s1 caller a i False (Suc d) = Some (r, s', c')"
          by blast
        from IH [OF _ e(5)] Cons stub(1) e(1-4) show ?thesis by simp
      qed
    qed
  qed
qed


lemma vm0_fields [simp]:
  "stack_overflow_limit vm0 = 4096" "bottom_address vm0 = 100" "preempt vm0 = False"
  "heap vm0 = []" "cont_tail vm0 = None"
  by (simp_all add: vm0_def)



lemma chunk_list_extend:
  assumes "take (length h) h' = h"
      and "\<forall>i < length h. case parent (h ! i) of None \<Rightarrow> True | Some p \<Rightarrow> p < length h"
      and "case t of None \<Rightarrow> True | Some i \<Rightarrow> i < length h"
  shows "chunk_list h' n t = chunk_list h n t"
  using assms(3)
proof (induction n arbitrary: t)
  case 0
  then show ?case by simp
next
  case (Suc n)
  show ?case
  proof (cases t)
    case None
    then show ?thesis by simp
  next
    case (Some i)
    with Suc.prems have i: "i < length h" by simp
    from assms(1) have "length (take (length h) h') = length h" by simp
    then have len: "length h \<le> length h'" by simp
    from assms(1) i have eq: "h' ! i = h ! i"
      by (metis nth_take)
    from assms(2) i have "case parent (h ! i) of None \<Rightarrow> True | Some p \<Rightarrow> p < length h"
      by simp
    from Suc.IH [OF this] i len eq Some show ?thesis by simp
  qed
qed

lemma freeze_slow_pinned:
  assumes "freeze_slow P fs s = Some (r, s')" and "is_pinned_result r"
  shows "heap s' = heap s \<and> cont_tail s' = cont_tail s \<and> stack s' = stack s"
proof -
  let ?s1 = "s\<lparr>fr_size := 0, fr_align_size := 0\<rparr>"
  from assms(2) have nok: "r \<noteq> freeze_ok" by (auto simp: is_pinned_result_def)
  from assms(1) obtain fl r0 s2 c2 where fl: "freeze_start_frame P ?s1 fs = Some fl"
    and fz: "freeze P fl ?s1 empty_frame 0 False True 0 = Some (r0, s2, c2)"
    by (auto simp: freeze_slow_def Let_def split: option.splits)
  have "r0 = r \<and> s2 = s'"
  proof (cases "r0 = freeze_ok")
    case True
    with assms(1) fl fz nok show ?thesis
      by (auto simp: freeze_slow_def Let_def split: option.splits)
  next
    case False
    with assms(1) fl fz show ?thesis by (simp add: freeze_slow_def Let_def)
  qed
  with fz have "freeze P fl ?s1 empty_frame 0 False True 0 = Some (r, s', c2)" by simp
  from freeze_pinned_unchanged [OF this assms(2)] show ?thesis by simp
qed

lemma freeze_fast_True_result:
  "freeze_fast P True frame_sp s = Some (b, s1) \<Longrightarrow> b"
  by (auto simp: freeze_fast_def Let_def split: option.splits if_splits)

lemma freeze_fast_False_abandon:
  assumes "freeze_fast P False frame_sp s = Some (False, s1)"
  shows "cont_tail s1 = cont_tail s \<and> take (length (heap s)) (heap s1) = heap s \<and>
         stack s1 = stack s"
proof (cases "allocate_chunk P (cont_size P s frame_sp + metadata_words P) s")
  case (Pair ro s0)
  show ?thesis
  proof (cases ro)
    case None
    with Pair assms have "s1 = s0" by (simp add: freeze_fast_def Let_def)
    with allocate_chunk_None [of P _ s s0] Pair None show ?thesis by simp
  next
    case (Some r)
    with Pair assms have "s1 = s0"
      by (auto simp: freeze_fast_def Let_def split: if_splits option.splits)
    moreover have "cont_tail s0 = cont_tail s \<and> take (length (heap s)) (heap s0) = heap s \<and>
         stack s0 = stack s"
    proof -
      have al: "allocate_chunk P (cont_size P s frame_sp + metadata_words P) s = (Some r, s0)"
        using Pair Some by simp
      note A = allocate_chunk_Some [OF al]
      from A obtain rb where "heap s0 = heap s @ [fresh_chunk (cont_size P s frame_sp + metadata_words P) (last_nonempty_chunk s) rb]"
        by (elim conjE exE)
      then have "take (length (heap s)) (heap s0) = heap s" by simp
      with A show ?thesis by simp
    qed
    ultimately show ?thesis by simp
  qed
qed

lemma try_freeze_fast_pinned:
  assumes "try_freeze_fast P ca frame_sp fs s = Some (r, s')" and "is_pinned_result r"
  shows "cont_tail s' = cont_tail s \<and> take (length (heap s)) (heap s') = heap s \<and>
         stack s' = stack s"
proof -
  from assms(1) obtain b s1 where ff: "freeze_fast P ca frame_sp s = Some (b, s1)"
    by (auto simp: try_freeze_fast_def split: option.splits)
  from assms(2) have nr: "r \<noteq> freeze_ok" "r \<noteq> freeze_exception"
    by (auto simp: is_pinned_result_def)
  have nb: "\<not> b" using assms(1) ff nr by (auto simp: try_freeze_fast_def)
  with ff freeze_fast_True_result have ca: "\<not> ca" by (cases ca) auto
  from assms(1) ff nb nr have sl: "freeze_slow P fs s1 = Some (r, s')"
    by (auto simp: try_freeze_fast_def split: if_splits)
  from ff nb ca have "freeze_fast P False frame_sp s = Some (False, s1)" by simp
  from freeze_fast_False_abandon [OF this] freeze_slow_pinned [OF sl assms(2)]
  show ?thesis by simp
qed

text \<open>
  C6.  When \<open>freeze_internal\<close> returns a pinned code (2, 3 or 4), the continuation's
  tail is the one it was and every chunk object that existed before the call is
  unchanged (a chunk allocated by an abandoned fast path comes after them and is not
  linked); hence, on a heap whose references are valid, the chunk list reached from the
  tail through the parent links is the same list of the same chunks.
\<close>

theorem freeze_pinned_leaves_continuation:
  assumes "freeze_internal P frame_sp fs s = Some (code, s')"
      and "code = freeze_result_code freeze_pinned_cs \<or>
           code = freeze_result_code freeze_pinned_native \<or>
           code = freeze_result_code freeze_pinned_monitor"
  shows "cont_tail s' = cont_tail s \<and> take (length (heap s)) (heap s') = heap s \<and>
         (closed_heap (heap s) (cont_tail s) \<longrightarrow>
            (\<forall>n. chunk_list (heap s') n (cont_tail s') = chunk_list (heap s) n (cont_tail s)))"
proof -
  have base: "cont_tail s' = cont_tail s \<and> take (length (heap s)) (heap s') = heap s"
  proof (cases "entry_pinned s")
    case True
    with assms(1) show ?thesis by (auto simp: freeze_internal_def Let_def open_wrapper_def)
  next
    case False
    let ?s1 = "FreezeBase False (open_wrapper s)"
    have s1: "cont_tail ?s1 = cont_tail s" "heap ?s1 = heap s"
      by (simp_all add: FreezeBase_def open_wrapper_def Let_def)
    have c0: "code \<noteq> 0" using assms(2) by auto
    show ?thesis
    proof (cases "can_freeze_fast P ?s1 \<and> is_chunk_available_for_fast_freeze P frame_sp ?s1")
      case True
      with assms(1) False c0 show ?thesis
        by (auto simp: freeze_internal_def Let_def open_wrapper_def split: option.splits)
    next
      case F: False
      from assms(1) False F obtain r where
        res: "(if can_freeze_fast P ?s1 then try_freeze_fast P False frame_sp fs ?s1
               else freeze_slow P fs ?s1) = Some (r, s')" and code: "code = freeze_result_code r"
        by (auto simp: freeze_internal_def Let_def open_wrapper_def split: option.splits if_splits)
      from code assms(2) have p: "is_pinned_result r"
        by (cases r) (auto simp: is_pinned_result_def)
      show ?thesis
      proof (cases "can_freeze_fast P ?s1")
        case True
        with res have "try_freeze_fast P False frame_sp fs ?s1 = Some (r, s')" by simp
        from try_freeze_fast_pinned [OF this p] s1 show ?thesis by simp
      next
        case False
        with res have "freeze_slow P fs ?s1 = Some (r, s')" by simp
        from freeze_slow_pinned [OF this p] s1 show ?thesis by simp
      qed
    qed
  qed
  moreover have "closed_heap (heap s) (cont_tail s) \<longrightarrow>
            (\<forall>n. chunk_list (heap s') n (cont_tail s') = chunk_list (heap s) n (cont_tail s))"
    using base by (auto simp: closed_heap_def intro!: chunk_list_extend)
  ultimately show ?thesis by simp
qed

theorem freeze_pinned_leaves_continuation_witness:
  "freeze_internal x86_64 88 [yield_stub, compiled_frame, locking_frame] vm_locked
     = Some (freeze_result_code freeze_pinned_monitor,
             snd (the (freeze_internal x86_64 88 [yield_stub, compiled_frame, locking_frame] vm_locked))) \<and>
   closed_heap (heap vm_locked) (cont_tail vm_locked) \<and>
   cont_tail (snd (the (freeze_internal x86_64 88 [yield_stub, compiled_frame, locking_frame] vm_locked)))
     = Some 0 \<and>
   heap (snd (the (freeze_internal x86_64 88 [yield_stub, compiled_frame, locking_frame] vm_locked)))
     = [chunk1]"
proof -
  let ?fs = "[yield_stub, compiled_frame, locking_frame]"
  define s' where "s' = snd (the (freeze_internal x86_64 88 ?fs vm_locked))"
  have cf: "\<not> can_freeze_fast x86_64 (FreezeBase False (open_wrapper vm_locked))"
    by (simp add: can_freeze_fast_def FreezeBase_def open_wrapper_def Let_def vm_locked_def vm1_def vm0_def)
  have fsf: "freeze_start_frame x86_64 st ?fs = Some [compiled_frame, locking_frame]"
    if "\<not> preempt st" for st
    using that by (simp add: freeze_start_frame_def)
  let ?s1 = "(FreezeBase False (open_wrapper vm_locked))\<lparr>fr_size := 0, fr_align_size := 0\<rparr>"
  have f1: "stack_overflow_limit ?s1 = 4096" "bottom_address ?s1 = 100" "preempt ?s1 = False"
    by (simp_all add: FreezeBase_def open_wrapper_def Let_def vm_locked_def vm1_def vm0_def)
  have cs: "c_stack_at x86_64 = (\<lambda>d. 1000000 - 256 * int d)" by (simp add: x86_64_def)
  have h1: "\<forall>i\<le>length [compiled_frame]. stack_overflow_limit ?s1 \<le> c_stack_at x86_64 (0 + i)"
    unfolding f1 by (simp add: cs)
  have h2: "\<forall>i<length [compiled_frame].
      walks_on x86_64 (bottom_address ?s1) (preempt ?s1) (True \<and> i = 0) ([compiled_frame] ! i)
        \<and> f_kind ([compiled_frame] ! i) \<noteq> Stub"
    unfolding f1 by (simp add: walks_on_def spec_frame_pin_def compiled_frame_def empty_frame_def)
  have h3: "spec_frame_pin (preempt ?s1) (True \<and> [compiled_frame] = []) locking_frame
      = Some freeze_pinned_monitor"
    unfolding f1 by (simp add: spec_frame_pin_def locking_frame_def empty_frame_def)
  have h4: "f_kind locking_frame = Interpreted \<and> f_method_is_native locking_frame
      \<longrightarrow> preempt ?s1 \<and> True \<and> [compiled_frame] = []"
    by (simp add: locking_frame_def empty_frame_def)
  from freeze_first_pinned [OF h1 h2 h3 h4, of "[]" empty_frame 0 False]
  obtain s2 where fz: "freeze x86_64 [compiled_frame, locking_frame] ?s1 empty_frame 0 False True 0
      = Some (freeze_pinned_monitor, s2, empty_frame)" by auto
  have sl: "freeze_slow x86_64 ?fs (FreezeBase False (open_wrapper vm_locked))
      = Some (freeze_pinned_monitor, s2)"
    using fz f1(3) by (simp add: freeze_slow_def Let_def fsf)
  have ep: "\<not> entry_pinned (open_wrapper vm_locked)"
    by (simp add: open_wrapper_def vm_locked_def vm1_def vm0_def)
  have fi: "freeze_internal x86_64 88 ?fs vm_locked
      = Some (freeze_result_code freeze_pinned_monitor, s2)"
    using cf sl ep by (simp add: freeze_internal_def Let_def)
  then have s2: "s' = s2" by (simp add: s'_def)
  have cl: "closed_heap (heap vm_locked) (cont_tail vm_locked)"
    by (simp add: closed_heap_def vm_locked_def vm1_def chunk1_def)
  have hv: "heap vm_locked = [chunk1]" "cont_tail vm_locked = Some 0"
    by (simp_all add: vm_locked_def vm1_def)
  from freeze_pinned_leaves_continuation [OF fi] have "cont_tail s2 = cont_tail vm_locked \<and>
      take (length (heap vm_locked)) (heap s2) = heap vm_locked" by simp
  moreover from sl have "heap s2 = heap (FreezeBase False (open_wrapper vm_locked))"
    using freeze_slow_pinned [OF sl] by (simp add: is_pinned_result_def)
  ultimately show ?thesis using fi cl hv
    unfolding s'_def [symmetric] s2
    by (simp add: FreezeBase_def open_wrapper_def Let_def)
qed

subsection \<open>Slow freeze: the mixed-frames flag\<close>

lemma deref_upd [simp]:
  "deref (s\<lparr>fr_align_size := x\<rparr>) r = deref s r"
  "deref (s\<lparr>fr_size := y\<rparr>) r = deref s r"
  "deref (s\<lparr>stack := m\<rparr>) r = deref s r"
  "deref (s\<lparr>th_fastpath := a\<rparr>) r = deref s r"
  "deref (s\<lparr>entry_argsize := b\<rparr>) r = deref s r"
  "deref (s\<lparr>top_unextended_sp := b\<rparr>) r = deref s r"
  "deref (s\<lparr>barriers := bb\<rparr>) r = deref s r"
  "deref (s\<lparr>cont_tail := t\<rparr>) r = deref s r"
  "deref (s\<lparr>cont_fastpath := bb\<rparr>) r = deref s r"
  "deref (s\<lparr>w_tail := t\<rparr>) r = deref s r"
  by (simp_all add: deref_def split: option.splits)

lemma tail_mixed_upd [simp]:
  "tail_mixed (s\<lparr>fr_align_size := x\<rparr>) = tail_mixed s"
  "tail_mixed (s\<lparr>fr_size := y\<rparr>) = tail_mixed s"
  "tail_mixed (s\<lparr>stack := m\<rparr>) = tail_mixed s"
  "tail_mixed (s\<lparr>th_fastpath := a\<rparr>) = tail_mixed s"
  "tail_mixed (s\<lparr>entry_argsize := b\<rparr>) = tail_mixed s"
  "tail_mixed (s\<lparr>top_unextended_sp := b\<rparr>) = tail_mixed s"
  "tail_mixed (s\<lparr>barriers := bb\<rparr>) = tail_mixed s"
  "tail_mixed (s\<lparr>cont_tail := t\<rparr>) = tail_mixed s"
  "tail_mixed (s\<lparr>cont_fastpath := bb\<rparr>) = tail_mixed s"
  by (simp_all add: tail_mixed_def)

lemma with_tail_Some:
  assumes "with_tail g s = Some s'"
  obtains r c where "w_tail s = Some r" "r < length (heap s)" "c = heap s ! r"
    "s' = store r (g c) s"
proof (cases "w_tail s")
  case None
  with assms show ?thesis by (simp add: with_tail_def)
next
  case (Some r)
  show ?thesis
  proof (cases "r < length (heap s)")
    case True
    with assms Some have "s' = store r (g (heap s ! r)) s"
      by (simp add: with_tail_def deref_def)
    with Some True that show ?thesis by simp
  next
    case False
    with assms Some show ?thesis by (simp add: with_tail_def deref_def)
  qed
qed

lemma with_tail_mixed:
  assumes "with_tail g s = Some s'" and "\<And>c. has_mixed_frames (g c) = has_mixed_frames c"
  shows "tail_mixed s' = tail_mixed s \<and> w_tail s' = w_tail s"
proof -
  from assms(1) obtain r c where r: "w_tail s = Some r" "r < length (heap s)" "c = heap s ! r"
    "s' = store r (g c) s" by (rule with_tail_Some)
  have "w_tail s' = Some r" using r by (simp add: store_def)
  moreover have "deref s' (Some r) = Some (g c)" using r by (simp add: deref_def store_def)
  moreover have "deref s (Some r) = Some c" using r by (simp add: deref_def)
  ultimately show ?thesis using r(1) assms(2) by (simp add: tail_mixed_def)
qed

lemma copy_to_chunk_mixed:
  assumes "copy_to_chunk a b n s = Some s'"
  shows "tail_mixed s' = tail_mixed s \<and> w_tail s' = w_tail s"
  by (rule with_tail_mixed [OF assms [unfolded copy_to_chunk_def]]) simp

lemma patch_mixed:
  assumes "patch P f hf c b s = Some s'"
  shows "tail_mixed s' = tail_mixed s \<and> w_tail s' = w_tail s"
  by (rule with_tail_mixed [OF assms [unfolded patch_def]]) (simp add: Let_def)

lemma store_fields [simp]:
  "w_tail (store r c s) = w_tail s" "cont_tail (store r c s) = cont_tail s"
  "length (heap (store r c s)) = length (heap s)" "stack (store r c s) = stack s"
  "barriers (store r c s) = barriers s" "fr_align_size (store r c s) = fr_align_size s"
  by (simp_all add: store_def)

lemma unwind_frames_fields [simp]:
  "w_tail (unwind_frames s) = w_tail s" "heap (unwind_frames s) = heap s"
  "cont_tail (unwind_frames s) = cont_tail s" "fr_size (unwind_frames s) = fr_size s"
  by (simp_all add: unwind_frames_def)

lemma finalize_freeze_tail_mixed:
  assumes "finalize_freeze_tail P r chunk s = Some (res, s', c')" and "w_tail s = Some r"
      and "r < length (heap s)"
  shows "tail_mixed s'"
proof -
  from assms(1) have s': "s' = store r (chunk\<lparr>has_mixed_frames := True,
       max_size := max_size chunk + fr_size s - metadata_words P\<rparr>) (unwind_frames s)"
    by (simp add: finalize_freeze_tail_def Let_def)
  show ?thesis unfolding s' tail_mixed_def
    using assms(2,3) by (simp add: deref_store_same)
qed


lemma finalize_freeze_mixed:
  assumes "finalize_freeze P callee asize s caller = Some (freeze_ok_bottom, s', c')"
  shows "tail_mixed s'"
proof -
  have a: "allocate_chunk P n s2 = (Some r, s3) \<Longrightarrow>
      finalize_freeze_tail P r ch s3 = Some (freeze_ok_bottom, s', c') \<Longrightarrow> tail_mixed s'"
    for n s2 r s3 ch
  proof -
    assume al: "allocate_chunk P n s2 = (Some r, s3)"
       and ft: "finalize_freeze_tail P r ch s3 = Some (freeze_ok_bottom, s', c')"
    from allocate_chunk_Some [OF al] obtain rb where
      "r = length (heap s2)" "heap s3 = heap s2 @ [fresh_chunk n (last_nonempty_chunk s2) rb]"
      "w_tail s3 = Some r" by blast
    then have "w_tail s3 = Some r" "r < length (heap s3)" by simp_all
    from finalize_freeze_tail_mixed [OF ft this] show ?thesis .
  qed
  have b: "finalize_freeze_tail P r ch s1 = Some (freeze_ok_bottom, s', c') \<Longrightarrow>
      w_tail s1 = Some r \<Longrightarrow> deref s1 (Some r) = Some ch0 \<Longrightarrow> tail_mixed s'" for r ch s1 ch0
  proof -
    assume ft: "finalize_freeze_tail P r ch s1 = Some (freeze_ok_bottom, s', c')"
       and w: "w_tail s1 = Some r" and d: "deref s1 (Some r) = Some ch0"
    from d have "r < length (heap s1)" by (simp add: deref_Some_iff)
    from finalize_freeze_tail_mixed [OF ft w this] show ?thesis .
  qed
  show ?thesis using assms
    unfolding finalize_freeze_def Let_def
    by (auto split: option.splits bool.splits prod.splits if_splits dest: a b)
qed


lemma freeze_ok_low:
  "1 < freeze_result_code r \<longleftrightarrow> r \<noteq> freeze_ok \<and> r \<noteq> freeze_ok_bottom"
  by (cases r) simp_all

lemma recurse_java_mixed:
  assumes "recurse_freeze_java_frame P K f s caller fsize asize rec = Some (r, s', c')"
      and "r = freeze_ok \<or> r = freeze_ok_bottom"
      and "\<And>s1 c1 a i s2 c2. rec s1 c1 a i = Some (freeze_ok, s2, c2) \<Longrightarrow> tail_mixed s2"
      and "\<And>s1 c1 a i s2 c2. rec s1 c1 a i \<noteq> Some (freeze_ok_bottom, s2, c2)"
  shows "tail_mixed s'"
proof (cases "f_frame_bottom f \<ge> bottom_address s - 1")
  case True
  with assms(1) have ff: "finalize_freeze P f asize (s\<lparr>fr_size := fr_size s + fsize\<rparr>) caller
      = Some (r, s', c')"
    by (simp add: recurse_freeze_java_frame_def Let_def)
  from finalize_freeze_result [OF ff] assms(2) have "r = freeze_ok_bottom" by auto
  with ff show ?thesis by (auto intro: finalize_freeze_mixed)
next
  case False
  with assms(1) have "rec (s\<lparr>fr_size := fr_size s + fsize\<rparr>) caller asize (K = Interpreted)
      = Some (r, s', c')"
    by (simp add: recurse_freeze_java_frame_def Let_def)
  with assms(2,3,4) show ?thesis by blast
qed

lemma recurse_compiled_mixed:
  assumes "recurse_freeze_compiled_frame P f s caller ca ci rec = Some (r, s', c')"
      and "r = freeze_ok \<or> r = freeze_ok_bottom"
      and "\<And>s1 c1 a i s2 c2. rec s1 c1 a i = Some (freeze_ok, s2, c2) \<Longrightarrow> tail_mixed s2"
      and "\<And>s1 c1 a i s2 c2. rec s1 c1 a i \<noteq> Some (freeze_ok_bottom, s2, c2)"
  shows "r = freeze_ok \<and> tail_mixed s'"
proof -
  let ?fs = "f_frame_bottom f + f_stack_argsize f - frame_top P Compiled f ca ci"
  obtain r0 s0 c0 where j: "recurse_freeze_java_frame P Compiled f s caller ?fs (f_stack_argsize f) rec
      = Some (r0, s0, c0)"
    using assms(1) by (auto simp: recurse_freeze_compiled_frame_def Let_def split: option.splits)
  have low: "r0 = freeze_ok \<or> r0 = freeze_ok_bottom"
  proof (rule ccontr)
    assume "\<not> ?thesis"
    then have "freeze_result_code freeze_ok_bottom < freeze_result_code r0"
      by (simp add: freeze_ok_low)
    with assms(1) j have "r = r0" by (simp add: recurse_freeze_compiled_frame_def Let_def)
    with assms(2) \<open>\<not> ?thesis\<close> show False by simp
  qed
  from recurse_java_mixed [OF j low assms(3,4)] have m0: "tail_mixed s0" .
  from low have nl: "\<not> freeze_result_code freeze_ok_bottom < freeze_result_code r0"
    by (auto simp: freeze_ok_low)
  obtain hf caller2 where nh: "new_heap_frame P Compiled f c0 = (hf, caller2)"
    by (cases "new_heap_frame P Compiled f c0")
  from assms(1) j nl nh obtain s2 s4 where
    cp: "copy_to_chunk (frame_top P Compiled f ca ci) (frame_top P Compiled hf ca ci) ?fs s0 = Some s2"
    and pt: "patch P f hf caller2 (r0 = freeze_ok_bottom)
              (if f_kind caller2 = Interpreted
               then s2\<lparr>fr_align_size := fr_align_size s2 + align_wiggle P\<rparr> else s2) = Some s4"
    and res: "r = freeze_ok" "s' = s4"
    by (auto simp: recurse_freeze_compiled_frame_def Let_def split: option.splits)
  from copy_to_chunk_mixed [OF cp] m0 have "tail_mixed s2" by simp
  then have "tail_mixed (if f_kind caller2 = Interpreted
               then s2\<lparr>fr_align_size := fr_align_size s2 + align_wiggle P\<rparr> else s2)" by simp
  with patch_mixed [OF pt] res show ?thesis by simp
qed

lemma recurse_interpreted_mixed:
  assumes "recurse_freeze_interpreted_frame P f0 s caller ca ci rec = Some (r, s', c')"
      and "r = freeze_ok \<or> r = freeze_ok_bottom"
      and "\<And>s1 c1 a i s2 c2. rec s1 c1 a i = Some (freeze_ok, s2, c2) \<Longrightarrow> tail_mixed s2"
      and "\<And>s1 c1 a i s2 c2. rec s1 c1 a i \<noteq> Some (freeze_ok_bottom, s2, c2)"
  shows "r = freeze_ok \<and> tail_mixed s'"
proof -
  let ?f = "adjust_interpreted_frame_unextended_sp P f0"
  let ?fs = "f_fp ?f + metadata_words P + f_max_locals ?f - frame_top P Interpreted ?f ca ci"
  obtain r0 s0 c0 where j: "recurse_freeze_java_frame P Interpreted ?f s caller ?fs (f_stack_argsize ?f) rec
      = Some (r0, s0, c0)"
    using assms(1) by (auto simp: recurse_freeze_interpreted_frame_def Let_def split: option.splits)
  have low: "r0 = freeze_ok \<or> r0 = freeze_ok_bottom"
  proof (rule ccontr)
    assume "\<not> ?thesis"
    then have "freeze_result_code freeze_ok_bottom < freeze_result_code r0"
      by (simp add: freeze_ok_low)
    with assms(1) j have "r = r0" by (simp add: recurse_freeze_interpreted_frame_def Let_def)
    with assms(2) \<open>\<not> ?thesis\<close> show False by simp
  qed
  from recurse_java_mixed [OF j low assms(3,4)] have m0: "tail_mixed s0" .
  from low have nl: "\<not> freeze_result_code freeze_ok_bottom < freeze_result_code r0"
    by (auto simp: freeze_ok_low)
  obtain hf caller2 where nh: "new_heap_frame P Interpreted ?f c0 = (hf, caller2)"
    by (cases "new_heap_frame P Interpreted ?f c0")
  let ?s2 = "s0\<lparr>fr_align_size := fr_align_size s0 + align_wiggle P\<rparr>"
  from assms(1) j nl nh obtain s3 s4 s5 s6 where
    c1: "copy_to_chunk (f_frame_bottom ?f - f_max_locals ?f)
           (f_frame_bottom hf - f_max_locals ?f) (f_max_locals ?f) ?s2 = Some s3"
    and c2: "copy_to_chunk (frame_top P Interpreted ?f ca ci) (frame_top P Interpreted hf ca ci)
           (?fs - f_max_locals ?f) s3 = Some s4"
    and c3: "with_tail (\<lambda>c. c\<lparr>mem := relativize_interpreted_frame_metadata P ?f hf (mem c)\<rparr>) s4
           = Some s5"
    and pt: "patch P ?f hf caller2 (r0 = freeze_ok_bottom) s5 = Some s6"
    and res: "r = freeze_ok" "s' = s6"
    by (auto simp: recurse_freeze_interpreted_frame_def Let_def split: option.splits)
  from m0 have "tail_mixed ?s2" by simp
  with copy_to_chunk_mixed [OF c1] have "tail_mixed s3" by simp
  with copy_to_chunk_mixed [OF c2] have "tail_mixed s4" by simp
  moreover have "tail_mixed s5 = tail_mixed s4 \<and> w_tail s5 = w_tail s4"
    by (rule with_tail_mixed [OF c3]) simp
  ultimately have "tail_mixed s5" by simp
  with patch_mixed [OF pt] res show ?thesis by simp
qed

lemma recurse_stub_mixed:
  assumes "recurse_freeze_stub_frame P f sf s caller rec = Some (r, s', c')"
      and "r = freeze_ok \<or> r = freeze_ok_bottom"
      and "\<And>s1 c1 a i s2 c2. rec s1 c1 a i = Some (freeze_ok, s2, c2) \<Longrightarrow> tail_mixed s2"
      and "\<And>s1 c1 a i s2 c2. rec s1 c1 a i \<noteq> Some (freeze_ok_bottom, s2, c2)"
  shows "r = freeze_ok \<and> tail_mixed s'"
proof -
  let ?s1 = "s\<lparr>fr_size := fr_size s + f_cb_frame_size f\<rparr>"
  from assms(1,2) have ok: "f_has_oop_map sf" "\<not> f_owning_locks sf"
    by (auto simp: recurse_freeze_stub_frame_def Let_def split: if_splits)
  with assms(1) obtain r0 s0 c0 where
    j: "recurse_freeze_compiled_frame P sf ?s1 caller 0 False rec = Some (r0, s0, c0)"
    by (auto simp: recurse_freeze_stub_frame_def Let_def split: option.splits)
  have low: "r0 = freeze_ok \<or> r0 = freeze_ok_bottom"
  proof (rule ccontr)
    assume "\<not> ?thesis"
    then have "freeze_result_code freeze_ok_bottom < freeze_result_code r0"
      by (simp add: freeze_ok_low)
    with assms(1) j ok have "r = r0" by (simp add: recurse_freeze_stub_frame_def Let_def)
    with assms(2) \<open>\<not> ?thesis\<close> show False by simp
  qed
  from recurse_compiled_mixed [OF j low assms(3,4)] have m0: "tail_mixed s0" by simp
  from low have nl: "\<not> freeze_result_code freeze_ok_bottom < freeze_result_code r0"
    by (auto simp: freeze_ok_low)
  obtain hf caller2 where nh: "new_heap_frame P Stub f c0 = (hf, caller2)"
    by (cases "new_heap_frame P Stub f c0")
  from assms(1) j nl nh ok obtain s3 where
    cp: "copy_to_chunk (frame_top P Stub f 0 False) (frame_top P Stub hf 0 False)
           (f_cb_frame_size f) s0 = Some s3"
    and res: "r = freeze_ok" "s' = s3"
    by (auto simp: recurse_freeze_stub_frame_def Let_def split: option.splits)
  from copy_to_chunk_mixed [OF cp] m0 res show ?thesis by simp
qed

lemma freeze_mixed:
  assumes "freeze P fs s caller ca ci is_top d = Some (r, s', c')"
      and "r = freeze_ok \<or> r = freeze_ok_bottom"
  shows "r = freeze_ok \<and> tail_mixed s'"
  using assms
proof (induction fs arbitrary: s caller ca ci is_top d r s' c' rule: length_induct)
  case (1 fs)
  show ?case
  proof (cases fs)
    case Nil
    with "1.prems" show ?thesis by (simp add: freeze.simps)
  next
    case (Cons f senders)
    note fr = "1.prems"(1) [unfolded Cons freeze.simps Let_def]
    have IH1: "tail_mixed s2"
      if "length xs < length fs" "freeze P xs s1 c1 a i t dd = Some (freeze_ok, s2, c2)"
      for xs s1 c1 a i t dd s2 c2
      using "1.IH" that by blast
    have IH2: "freeze P xs s1 c1 a i t dd \<noteq> Some (freeze_ok_bottom, s2, c2)"
      if "length xs < length fs" for xs s1 c1 a i t dd s2 c2
    proof
      assume "freeze P xs s1 c1 a i t dd = Some (freeze_ok_bottom, s2, c2)"
      with "1.IH" that have "freeze_ok_bottom = freeze_ok" by blast
      then show False by simp
    qed
    let ?s1 = "snd (stack_overflow P d s)"
    consider
      (comp) "recurse_freeze_compiled_frame P f ?s1 caller ca ci
               (\<lambda>s' c' a' i'. freeze P senders s' c' a' i' False (Suc d)) = Some (r, s', c')"
    | (interp) "recurse_freeze_interpreted_frame P f ?s1 caller ca ci
               (\<lambda>s' c' a' i'. freeze P senders s' c' a' i' False (Suc d)) = Some (r, s', c')"
    | (stub) sf rest where "senders = sf # rest"
         "recurse_freeze_stub_frame P f sf ?s1 caller
               (\<lambda>s' c' a' i'. freeze P rest s' c' a' i' False (Suc d)) = Some (r, s', c')"
      using fr "1.prems"(2) by (auto split: if_splits list.splits)
    then show ?thesis
    proof cases
      case comp
      have r1: "tail_mixed s2"
        if "freeze P senders s1 c1 a i False (Suc d) = Some (freeze_ok, s2, c2)"
        for s1 c1 a i s2 c2
        using IH1 [OF _ that] by (simp add: Cons)
      have r2: "\<And>s1 c1 a i s2 c2. freeze P senders s1 c1 a i False (Suc d)
          \<noteq> Some (freeze_ok_bottom, s2, c2)"
        by (rule IH2) (simp add: Cons)
      from recurse_compiled_mixed [OF comp "1.prems"(2) r1 r2] show ?thesis .
    next
      case interp
      have r1: "tail_mixed s2"
        if "freeze P senders s1 c1 a i False (Suc d) = Some (freeze_ok, s2, c2)"
        for s1 c1 a i s2 c2
        using IH1 [OF _ that] by (simp add: Cons)
      have r2: "\<And>s1 c1 a i s2 c2. freeze P senders s1 c1 a i False (Suc d)
          \<noteq> Some (freeze_ok_bottom, s2, c2)"
        by (rule IH2) (simp add: Cons)
      from recurse_interpreted_mixed [OF interp "1.prems"(2) r1 r2] show ?thesis .
    next
      case stub
      have r1: "tail_mixed s2"
        if "freeze P rest s1 c1 a i False (Suc d) = Some (freeze_ok, s2, c2)"
        for s1 c1 a i s2 c2
        using IH1 [OF _ that] by (simp add: Cons stub(1))
      have r2: "\<And>s1 c1 a i s2 c2. freeze P rest s1 c1 a i False (Suc d)
          \<noteq> Some (freeze_ok_bottom, s2, c2)"
        by (rule IH2) (simp add: Cons stub(1))
      from recurse_stub_mixed [OF stub(2) "1.prems"(2) r1 r2] show ?thesis .
    qed
  qed
qed

lemma finish_freeze_mixed:
  assumes "finish_freeze P topf s = Some s'"
  shows "tail_mixed s' = tail_mixed s \<and> w_tail s' = w_tail s"
  by (rule with_tail_mixed [OF assms [unfolded finish_freeze_def]]) (simp add: Let_def)

lemma freeze_slow_mixed:
  assumes "freeze_slow P fs s = Some (freeze_ok, s')"
  shows "tail_mixed s' \<and> cont_tail s' = w_tail s'"
proof -
  let ?s1 = "s\<lparr>fr_size := 0, fr_align_size := 0\<rparr>"
  from assms obtain fl s2 caller s3 where
    f: "freeze P fl ?s1 empty_frame 0 False True 0 = Some (freeze_ok, s2, caller)"
    and ff: "finish_freeze P caller s2 = Some s3" and s': "s' = cont_write s3"
    by (auto simp: freeze_slow_def Let_def split: option.splits if_splits)
  from freeze_mixed [OF f] have "tail_mixed s2" by simp
  with finish_freeze_mixed [OF ff] have "tail_mixed s3" by simp
  then show ?thesis unfolding s' by (simp add: cont_write_def)
qed


lemma w_tail_upd [simp]:
  "w_tail (maybe_set_fastpath a s) = w_tail s"
  "tail_mixed (maybe_set_fastpath a s) = tail_mixed s"
  "w_tail (thaw_patch P f c b s) = w_tail s"
  "tail_mixed (thaw_patch P f c b s) = tail_mixed s"
  by (simp_all add: maybe_set_fastpath_def thaw_patch_def Let_def)

lemma copy_from_chunk_mixed:
  assumes "copy_from_chunk a b n s = Some s'"
  shows "tail_mixed s' = tail_mixed s \<and> w_tail s' = w_tail s"
  using assms by (auto simp: copy_from_chunk_def)

lemma thaw_barriers_mixed:
  assumes "thaw_barriers P hf s = Some s'"
  shows "tail_mixed s' = tail_mixed s \<and> w_tail s' = w_tail s"
proof (cases "seen_by_gc s")
  case None
  with assms show ?thesis by (simp add: thaw_barriers_def)
next
  case (Some b)
  show ?thesis
  proof (cases b)
    case True
    with Some assms have "with_tail (\<lambda>c. c\<lparr>mem := do_barriers_frame P hf c\<rparr>) s = Some s'"
      by (simp add: thaw_barriers_def)
    then show ?thesis by (rule with_tail_mixed) simp
  next
    case False
    with Some assms show ?thesis by (simp add: thaw_barriers_def)
  qed
qed

lemma finalize_thaw_mixed:
  assumes "finalize_thaw P cfs e asize s = Some (s', c')"
  shows "tail_mixed s' = tail_mixed s \<and> w_tail s' = w_tail s"
proof -
  from assms obtain s1 where
    w: "with_tail (\<lambda>chunk.
             let c1 = (if cfs \<noteq> []
                       then chunk\<lparr>sp := f_sp (stream_frame cfs e), pc := f_pc (stream_frame cfs e)\<rparr>
                       else chunk\<lparr>argsize := 0, sp := stack_size chunk, pc := 0\<rparr>);
                 delta = f_unextended_sp (stream_frame cfs e) - top_unextended_sp s
             in c1\<lparr>max_size := max_size c1 - delta\<rparr>) s = Some s1"
    and s': "s' = s1\<lparr>entry_argsize := asize\<rparr>"
    by (auto simp: finalize_thaw_def Let_def split: option.splits)
  have "tail_mixed s1 = tail_mixed s \<and> w_tail s1 = w_tail s"
    by (rule with_tail_mixed [OF w]) (simp add: Let_def)
  then show ?thesis unfolding s' by simp
qed

lemma thaw_fix_or_clear_mixed:
  assumes "thaw_fix_or_clear P bottom caller start n s = Some s'"
  shows "tail_mixed s' = tail_mixed s \<and> w_tail s' = w_tail s"
proof -
  from assms obtain r c where r: "w_tail s = Some r" "deref s (Some r) = Some c"
    by (auto simp: thaw_fix_or_clear_def split: option.splits)
  then have rl: "r < length (heap s)" by (simp add: deref_Some_iff)
  from assms r consider "s' = s\<lparr>stack := fix_thawed_frame P c caller (stack s)\<rparr>"
    | "s' = store r (clear_bitmap_bits start n c) s" | "s' = s"
    by (auto simp: thaw_fix_or_clear_def split: if_splits)
  then show ?thesis
  proof cases
    case 2
    have "deref s' (Some r) = Some (clear_bitmap_bits start n c)"
      unfolding 2 using rl by (rule deref_store_same)
    then show ?thesis using r 2 by (simp add: tail_mixed_def clear_bitmap_bits_def)
  qed simp_all
qed

lemma recurse_thaw_java_mixed:
  assumes "recurse_thaw_java_frame P K hf rest e s caller n rec = Some (b, s', c')"
      and "\<And>s1 c1 n1 s2 c2. rec s1 c1 n1 = Some (s2, c2) \<Longrightarrow>
              tail_mixed s2 = tail_mixed s1 \<and> w_tail s2 = w_tail s1"
  shows "tail_mixed s' = tail_mixed s \<and> w_tail s' = w_tail s"
  using assms
  by (auto simp: recurse_thaw_java_frame_def Let_def split: if_splits dest: finalize_thaw_mixed)


lemma recurse_thaw_compiled_mixed:
  assumes "recurse_thaw_compiled_frame P hf rest e s caller n stub_caller rec = Some (s', c')"
      and rec: "\<And>s1 c1 n1 s2 c2. rec s1 c1 n1 = Some (s2, c2) \<Longrightarrow>
              tail_mixed s2 = tail_mixed s1 \<and> w_tail s2 = w_tail s1"
  shows "tail_mixed s' = tail_mixed s \<and> w_tail s' = w_tail s"
proof -
  from assms(1) obtain s0 where
    b: "(if \<not> stub_caller then thaw_barriers P hf s else Some s) = Some s0"
    by (auto simp: recurse_thaw_compiled_frame_def split: option.splits)
  have i0: "tail_mixed s0 = tail_mixed s \<and> w_tail s0 = w_tail s"
    using b by (auto split: if_splits dest: thaw_barriers_mixed)
  from assms(1) b obtain bottom s1 caller1 where
    j: "recurse_thaw_java_frame P Compiled hf rest e s0 caller n rec = Some (bottom, s1, caller1)"
    by (auto simp: recurse_thaw_compiled_frame_def split: option.splits)
  from recurse_thaw_java_mixed [OF j rec]
  have i1: "tail_mixed s1 = tail_mixed s0 \<and> w_tail s1 = w_tail s0" .
  from assms(1) b j obtain chunk where ch: "deref s1 (w_tail s1) = Some chunk"
    by (auto simp: recurse_thaw_compiled_frame_def split: option.splits)
  let ?s2 = "if (\<not> bottom \<and> f_kind caller1 = Interpreted)
                       \<or> (bottom \<and> interpreter_contains P (pc chunk))
             then s1\<lparr>fr_align_size := fr_align_size s1 + align_wiggle P\<rparr> else s1"
  have i2: "tail_mixed ?s2 = tail_mixed s1 \<and> w_tail ?s2 = w_tail s1" by simp
  obtain f caller2 where nf: "new_stack_frame P Compiled hf caller1 bottom = (f, caller2)"
    by (cases "new_stack_frame P Compiled hf caller1 bottom")
  let ?added = "if bottom \<or> f_kind caller2 = Interpreted then f_stack_argsize hf else 0"
  from assms(1) b j ch nf obtain s3 where
    cp: "copy_from_chunk (f_unextended_sp hf - metadata_words P) (f_sp f - metadata_words P)
           (f_cb_frame_size hf + ?added + metadata_words P) ?s2 = Some s3"
    by (auto simp: recurse_thaw_compiled_frame_def Let_def split: option.splits)
  from copy_from_chunk_mixed [OF cp]
  have i3: "tail_mixed s3 = tail_mixed ?s2 \<and> w_tail s3 = w_tail ?s2" .
  let ?s4 = "thaw_patch P f caller2 bottom s3"
  obtain f1 s5 where d: "(if f_deoptimized f then (f, maybe_set_fastpath (f_sp f) ?s4)
                         else if is_interp_only_mode ?s4
                                 \<or> (is_preempted ?s4 \<and> f_marked_for_deoptimization f)
                         then (let (fd, m) = deoptimize P f (stack ?s4)
                               in (fd, maybe_set_fastpath (f_sp fd) (?s4\<lparr>stack := m\<rparr>)))
                         else (f, ?s4)) = (f1, s5)"
    by (cases "(if f_deoptimized f then (f, maybe_set_fastpath (f_sp f) ?s4)
                         else if is_interp_only_mode ?s4
                                 \<or> (is_preempted ?s4 \<and> f_marked_for_deoptimization f)
                         then (let (fd, m) = deoptimize P f (stack ?s4)
                               in (fd, maybe_set_fastpath (f_sp fd) (?s4\<lparr>stack := m\<rparr>)))
                         else (f, ?s4))")
  have i5: "tail_mixed s5 = tail_mixed s3 \<and> w_tail s5 = w_tail s3"
    using d by (auto simp: Let_def split: if_splits prod.splits)
  from assms(1) b j ch nf cp d have
    fx: "thaw_fix_or_clear P bottom caller2 (f_unextended_sp hf + f_cb_frame_size hf) ?added s5
          = Some s'"
    by (auto simp: recurse_thaw_compiled_frame_def Let_def split: option.splits)
  from thaw_fix_or_clear_mixed [OF fx] i5 i3 i2 i1 i0 show ?thesis by simp
qed

lemma recurse_thaw_interpreted_mixed:
  assumes "recurse_thaw_interpreted_frame P hf rest e s caller n rec = Some (s', c')"
      and rec: "\<And>s1 c1 n1 s2 c2. rec s1 c1 n1 = Some (s2, c2) \<Longrightarrow>
              tail_mixed s2 = tail_mixed s1 \<and> w_tail s2 = w_tail s1"
  shows "tail_mixed s' = tail_mixed s \<and> w_tail s' = w_tail s"
proof -
  from assms(1) obtain s0 where b: "thaw_barriers P hf s = Some s0"
    by (auto simp: recurse_thaw_interpreted_frame_def split: option.splits)
  from thaw_barriers_mixed [OF b]
  have i0: "tail_mixed s0 = tail_mixed s \<and> w_tail s0 = w_tail s" .
  from assms(1) b obtain bottom s1 caller1 where
    j: "recurse_thaw_java_frame P Interpreted hf rest e s0 caller n rec = Some (bottom, s1, caller1)"
    by (auto simp: recurse_thaw_interpreted_frame_def split: option.splits)
  from recurse_thaw_java_mixed [OF j rec]
  have i1: "tail_mixed s1 = tail_mixed s0 \<and> w_tail s1 = w_tail s0" .
  let ?s2 = "s1\<lparr>fr_align_size := fr_align_size s1 + align_wiggle P\<rparr>"
  obtain f caller2 where nf: "new_stack_frame P Interpreted hf caller1 bottom = (f, caller2)"
    by (cases "new_stack_frame P Interpreted hf caller1 bottom")
  from assms(1) b j nf obtain s3 s4 where
    c1: "copy_from_chunk (f_frame_bottom hf - f_max_locals hf) (f_frame_bottom f - f_max_locals hf)
           (f_max_locals hf) ?s2 = Some s3"
    and c2: "copy_from_chunk (f_unextended_sp hf) (f_sp f)
           (f_frame_bottom hf - f_unextended_sp hf - f_max_locals hf) s3 = Some s4"
    by (auto simp: recurse_thaw_interpreted_frame_def Let_def split: option.splits)
  from copy_from_chunk_mixed [OF c1]
  have i3: "tail_mixed s3 = tail_mixed s1 \<and> w_tail s3 = w_tail s1" by simp
  from copy_from_chunk_mixed [OF c2]
  have i4: "tail_mixed s4 = tail_mixed s3 \<and> w_tail s4 = w_tail s3" .
  let ?m2 = "derelativize_interpreted_frame_metadata P hf f
               (set_interpreter_frame_bottom P f (f_frame_bottom f) (stack s4))"
  let ?s6 = "maybe_set_fastpath (f_sp f) (thaw_patch P f caller2 bottom (s4\<lparr>stack := ?m2\<rparr>))"
  from assms(1) b j nf c1 c2 have
    fx: "thaw_fix_or_clear P bottom caller2 (f_frame_bottom hf - f_max_locals hf) (f_max_locals hf) ?s6
          = Some s'"
    by (auto simp: recurse_thaw_interpreted_frame_def Let_def split: option.splits)
  from thaw_fix_or_clear_mixed [OF fx] i4 i3 i1 i0 show ?thesis by simp
qed

lemma recurse_thaw_stub_mixed:
  assumes "recurse_thaw_stub_frame P hf hf2 rest e s caller n rec = Some (s', c')"
      and rec: "\<And>s1 c1 n1 s2 c2. rec s1 c1 n1 = Some (s2, c2) \<Longrightarrow>
              tail_mixed s2 = tail_mixed s1 \<and> w_tail s2 = w_tail s1"
  shows "tail_mixed s' = tail_mixed s \<and> w_tail s' = w_tail s"
proof -
  from assms(1) obtain s0 where b: "thaw_barriers P hf2 s = Some s0"
    by (auto simp: recurse_thaw_stub_frame_def split: option.splits)
  from thaw_barriers_mixed [OF b]
  have i0: "tail_mixed s0 = tail_mixed s \<and> w_tail s0 = w_tail s" .
  from assms(1) b obtain s1 caller1 where
    j: "recurse_thaw_compiled_frame P hf2 rest e s0 caller n True rec = Some (s1, caller1)"
    by (auto simp: recurse_thaw_stub_frame_def split: option.splits)
  from recurse_thaw_compiled_mixed [OF j rec]
  have i1: "tail_mixed s1 = tail_mixed s0 \<and> w_tail s1 = w_tail s0" .
  obtain f caller2 where nf: "new_stack_frame P Stub hf caller1 False = (f, caller2)"
    by (cases "new_stack_frame P Stub hf caller1 False")
  from assms(1) b j nf obtain s2 c where
    cp: "copy_from_chunk (f_sp hf - metadata_words P) (f_sp f - metadata_words P)
           (f_cb_frame_size hf + metadata_words P) s1 = Some s2"
    and s': "s' = s2\<lparr>stack := fix_thawed_frame P c caller2 (stack s2)\<rparr>"
    by (auto simp: recurse_thaw_stub_frame_def Let_def split: option.splits)
  from copy_from_chunk_mixed [OF cp] i1 i0 show ?thesis unfolding s' by simp
qed

lemma thaw_one_frame_mixed:
  assumes "thaw_one_frame P cfs e s caller n is_top = Some (s', c')"
  shows "tail_mixed s' = tail_mixed s \<and> w_tail s' = w_tail s"
  using assms
proof (induction cfs arbitrary: s caller n is_top s' c' rule: length_induct)
  case (1 cfs)
  show ?case
  proof (cases cfs)
    case Nil
    with "1.prems" show ?thesis by (simp add: thaw_one_frame.simps)
  next
    case (Cons hf rest)
    note fr = "1.prems" [unfolded Cons thaw_one_frame.simps]
    have IH: "tail_mixed s2 = tail_mixed s1 \<and> w_tail s2 = w_tail s1"
      if "length xs < length cfs" "thaw_one_frame P xs e s1 c1 n1 False = Some (s2, c2)"
      for xs s1 c1 n1 s2 c2
      using "1.IH" that by blast
    consider
      (stub) hf2 rest2 where "rest = hf2 # rest2"
        "recurse_thaw_stub_frame P hf hf2 rest2 e s caller n
               (\<lambda>s' c' n'. thaw_one_frame P rest2 e s' c' n' False) = Some (s', c')"
    | (comp) "recurse_thaw_compiled_frame P hf rest e s caller n False
          (\<lambda>s' c' n'. thaw_one_frame P rest e s' c' n' False) = Some (s', c')"
    | (interp) "recurse_thaw_interpreted_frame P hf rest e s caller n
          (\<lambda>s' c' n'. thaw_one_frame P rest e s' c' n' False) = Some (s', c')"
      using fr by (auto split: if_splits list.splits)
    then show ?thesis
    proof cases
      case stub
      have r: "tail_mixed s2 = tail_mixed s1 \<and> w_tail s2 = w_tail s1"
        if "thaw_one_frame P rest2 e s1 c1 n1 False = Some (s2, c2)" for s1 c1 n1 s2 c2
        using IH [OF _ that] by (simp add: Cons stub(1))
      from recurse_thaw_stub_mixed [OF stub(2) r] show ?thesis .
    next
      case comp
      have r: "tail_mixed s2 = tail_mixed s1 \<and> w_tail s2 = w_tail s1"
        if "thaw_one_frame P rest e s1 c1 n1 False = Some (s2, c2)" for s1 c1 n1 s2 c2
        using IH [OF _ that] by (simp add: Cons)
      from recurse_thaw_compiled_mixed [OF comp r] show ?thesis .
    next
      case interp
      have r: "tail_mixed s2 = tail_mixed s1 \<and> w_tail s2 = w_tail s1"
        if "thaw_one_frame P rest e s1 c1 n1 False = Some (s2, c2)" for s1 c1 n1 s2 c2
        using IH [OF _ that] by (simp add: Cons)
      from recurse_thaw_interpreted_mixed [OF interp r] show ?thesis .
    qed
  qed
qed


lemma finish_thaw_mixed:
  assumes "finish_thaw P f s = Some (s', f1)" and "w_tail s = Some r" and "tail_mixed s"
  shows "\<exists>c'. deref s' (Some r) = Some c' \<and>
           (\<not> has_mixed_frames c' \<longrightarrow> is_empty c' \<and> max_size c' = 0)"
proof -
  from assms(1,2) obtain c where c: "deref s (Some r) = Some c"
    by (auto simp: finish_thaw_def split: option.splits)
  then have rl: "r < length (heap s)" by (simp add: deref_Some_iff)
  from assms(2,3) c have m: "has_mixed_frames c" by (simp add: tail_mixed_def)
  let ?s1 = "if is_empty c then
               (if barriers s \<or> is_gc_mode c
                then store r (c\<lparr>max_size := 0\<rparr>) (s\<lparr>w_tail := parent c\<rparr>)
                else store r (c\<lparr>has_mixed_frames := False, max_size := 0\<rparr>) s)
             else store r (c\<lparr>max_size := max_size c - fr_align_size s\<rparr>) s"
  from assms(1,2) c have "\<exists>m. s' = ?s1\<lparr>stack := m\<rparr>"
    by (auto simp: finish_thaw_def Let_def)
  then obtain m where s': "s' = ?s1\<lparr>stack := m\<rparr>" ..
  have d: "deref (store r x (s\<lparr>w_tail := y\<rparr>)) (Some r) = Some x"
    "deref (store r x s) (Some r) = Some x" for x y
    using rl by (simp_all add: deref_def store_def)
  show ?thesis
    unfolding s' using m by (simp add: d is_empty_def)
qed

lemma thaw_slow_mixed:
  assumes "thaw_slow P r rb s = Some (n, s')" and "w_tail s = Some r"
      and "deref s (Some r) = Some c" and "has_mixed_frames c"
  shows "\<exists>c'. deref s' (Some r) = Some c' \<and>
           (\<not> has_mixed_frames c' \<longrightarrow> is_empty c' \<and> max_size c' = 0)"
proof -
  let ?cfs = "chunk_frames P c"
  let ?e = "stack_size c - argsize c"
  let ?s0 = "s\<lparr>fr_align_size := 0, top_unextended_sp := f_unextended_sp (stream_frame ?cfs ?e)\<rparr>"
  from assms(1,3) obtain s1 caller s2 caller1 where
    t: "thaw_one_frame P ?cfs ?e ?s0 empty_frame (if rb then 1 else 2) True = Some (s1, caller)"
    and f: "finish_thaw P caller s1 = Some (s2, caller1)"
    and s': "s' = (cont_write s2)\<lparr>cont_fastpath :=
                (th_fastpath (cont_write s2) = 0 \<and> cont_fastpath_thread_state (cont_write s2))\<rparr>"
    by (auto simp: thaw_slow_def Let_def split: option.splits)
  from assms(2,3,4) have "tail_mixed ?s0" "w_tail ?s0 = Some r"
    by (simp_all add: tail_mixed_def)
  with thaw_one_frame_mixed [OF t] have "tail_mixed s1" "w_tail s1 = Some r" by simp_all
  from finish_thaw_mixed [OF f this(2,1)] show ?thesis
    unfolding s' by (simp add: cont_write_def)
qed

text \<open>
  C10.  A slow freeze that succeeds leaves the wrapper's tail, which it publishes, with
  the \<^verbatim>\<open>HAS_MIXED_FRAMES\<close> flag set, whatever the kinds of the frozen frames.  A tail
  chunk with the flag set is not available for a fast freeze and cannot be thawed on the
  fast path: \<open>thaw\<close> takes the slow path.  After such a thaw the chunk still has the
  flag, or else it has been emptied (\<open>sp = stack_size\<close>, \<open>max_size = 0\<close>).
\<close>

theorem slow_freeze_sets_mixed_frames:
  "(freeze_slow P fs s = Some (freeze_ok, s') \<longrightarrow>
      (\<exists>r c. w_tail s' = Some r \<and> cont_tail s' = Some r \<and> deref s' (Some r) = Some c \<and>
             has_mixed_frames c)) \<and>
   (w_tail t = Some r \<and> deref t (Some r) = Some c \<and> has_mixed_frames c \<longrightarrow>
      \<not> is_chunk_available_for_fast_freeze P frame_sp t \<and>
      \<not> can_thaw_fast P (t\<lparr>barriers := requires_barriers c\<rparr>) c \<and>
      thaw P kind t = thaw_slow P r (kind \<noteq> thaw_top) (t\<lparr>barriers := requires_barriers c\<rparr>) \<and>
      (\<forall>n t'. thaw P kind t = Some (n, t') \<longrightarrow>
         (\<exists>c'. deref t' (Some r) = Some c' \<and>
               (\<not> has_mixed_frames c' \<longrightarrow> is_empty c' \<and> max_size c' = 0))))"
proof (intro conjI impI)
  assume "freeze_slow P fs s = Some (freeze_ok, s')"
  from freeze_slow_mixed [OF this] have m: "tail_mixed s'" and ct: "cont_tail s' = w_tail s'"
    by simp_all
  from m obtain c where "deref s' (w_tail s') = Some c" "has_mixed_frames c"
    by (auto simp: tail_mixed_def split: option.splits)
  moreover from this(1) obtain r where "w_tail s' = Some r"
    by (cases "w_tail s'") (simp_all add: deref_def)
  ultimately show "\<exists>r c. w_tail s' = Some r \<and> cont_tail s' = Some r \<and>
      deref s' (Some r) = Some c \<and> has_mixed_frames c"
    using ct by auto
next
  assume a: "w_tail t = Some r \<and> deref t (Some r) = Some c \<and> has_mixed_frames c"
  then show "\<not> is_chunk_available_for_fast_freeze P frame_sp t"
    by (simp add: is_chunk_available_for_fast_freeze_def)
  from a show nf: "\<not> can_thaw_fast P (t\<lparr>barriers := requires_barriers c\<rparr>) c"
    by (simp add: can_thaw_fast_def has_thaw_slowpath_condition_def)
  from a nf show th: "thaw P kind t
      = thaw_slow P r (kind \<noteq> thaw_top) (t\<lparr>barriers := requires_barriers c\<rparr>)"
    by (simp add: thaw_def Let_def)
  show "\<forall>n t'. thaw P kind t = Some (n, t') \<longrightarrow>
         (\<exists>c'. deref t' (Some r) = Some c' \<and>
               (\<not> has_mixed_frames c' \<longrightarrow> is_empty c' \<and> max_size c' = 0))"
  proof (intro allI impI)
    fix n t' assume "thaw P kind t = Some (n, t')"
    with th have ts: "thaw_slow P r (kind \<noteq> thaw_top) (t\<lparr>barriers := requires_barriers c\<rparr>)
        = Some (n, t')" by simp
    from a have "w_tail (t\<lparr>barriers := requires_barriers c\<rparr>) = Some r"
      "deref (t\<lparr>barriers := requires_barriers c\<rparr>) (Some r) = Some c" "has_mixed_frames c"
      by simp_all
    from thaw_slow_mixed [OF ts this]
    show "\<exists>c'. deref t' (Some r) = Some c' \<and>
               (\<not> has_mixed_frames c' \<longrightarrow> is_empty c' \<and> max_size c' = 0)" .
  qed
qed


theorem slow_freeze_sets_mixed_frames_witness:
  "f_kind compiled_frame = Compiled \<and> f_kind bottom_frame = Compiled \<and>
   (\<exists>s' c. freeze_slow x86_64f [yield_stub, compiled_frame, bottom_frame] vm0
              = Some (freeze_ok, s') \<and>
       w_tail s' = Some 0 \<and> cont_tail s' = Some 0 \<and> deref s' (Some 0) = Some c \<and>
       has_mixed_frames c \<and>
       \<not> is_chunk_available_for_fast_freeze x86_64f 88 s' \<and>
       \<not> can_thaw_fast x86_64f (s'\<lparr>barriers := requires_barriers c\<rparr>) c \<and>
       (\<exists>n t' c'. thaw x86_64f thaw_return_barrier s' = Some (n, t') \<and>
          deref t' (Some 0) = Some c' \<and> has_mixed_frames c' \<and> \<not> is_empty c') \<and>
       (\<exists>n t' c'. thaw x86_64f thaw_top s' = Some (n, t') \<and> deref t' (Some 0) = Some c' \<and>
          \<not> has_mixed_frames c' \<and> is_empty c' \<and> max_size c' = 0))"
proof -
  let ?fs = "[yield_stub, compiled_frame, bottom_frame]"
  define s' where "s' = snd (the (freeze_slow x86_64f ?fs vm0))"
  have k: "f_kind compiled_frame = Compiled" "f_kind bottom_frame = Compiled"
    by (simp_all add: compiled_frame_def bottom_frame_def empty_frame_def)
  have "map_option fst (freeze_slow x86_64f ?fs vm0) = Some freeze_ok" by code_simp
  then have e: "freeze_slow x86_64f ?fs vm0 = Some (freeze_ok, s')"
    unfolding s'_def by (cases "freeze_slow x86_64f ?fs vm0") auto
  have w: "w_tail s' = Some 0" unfolding s'_def by code_simp
  have t1: "case thaw x86_64f thaw_return_barrier s' of None \<Rightarrow> False
      | Some (n, t') \<Rightarrow> (case deref t' (Some 0) of None \<Rightarrow> False
                          | Some c' \<Rightarrow> has_mixed_frames c' \<and> \<not> is_empty c')"
    unfolding s'_def by code_simp
  have t2: "case thaw x86_64f thaw_top s' of None \<Rightarrow> False
      | Some (n, t') \<Rightarrow> (case deref t' (Some 0) of None \<Rightarrow> False
                          | Some c' \<Rightarrow> \<not> has_mixed_frames c')"
    unfolding s'_def by code_simp
  from t1 obtain n1 u1 c1 where r1: "thaw x86_64f thaw_return_barrier s' = Some (n1, u1)"
    "deref u1 (Some 0) = Some c1" "has_mixed_frames c1" "\<not> is_empty c1"
    by (auto split: option.splits)
  from t2 obtain n2 u2 c2 where r2: "thaw x86_64f thaw_top s' = Some (n2, u2)"
    "deref u2 (Some 0) = Some c2" "\<not> has_mixed_frames c2"
    by (auto split: option.splits)
  from slow_freeze_sets_mixed_frames
      [where P = x86_64f and fs = ?fs and s = vm0 and s' = s', THEN conjunct1] e w
  obtain c where c: "cont_tail s' = Some 0" "deref s' (Some 0) = Some c" "has_mixed_frames c"
    by auto
  from slow_freeze_sets_mixed_frames [where P = x86_64f and t = s' and r = 0 and c = c
      and frame_sp = 88 and kind = thaw_top, THEN conjunct2] w c
  have a: "\<not> is_chunk_available_for_fast_freeze x86_64f 88 s'"
    "\<not> can_thaw_fast x86_64f (s'\<lparr>barriers := requires_barriers c\<rparr>) c"
    "\<forall>n t'. thaw x86_64f thaw_top s' = Some (n, t') \<longrightarrow>
         (\<exists>c'. deref t' (Some 0) = Some c' \<and>
               (\<not> has_mixed_frames c' \<longrightarrow> is_empty c' \<and> max_size c' = 0))"
    by simp_all
  from a(3) r2 have "is_empty c2 \<and> max_size c2 = 0" by auto
  with k e w c a(1,2) r1 r2 show ?thesis by blast
qed

subsection \<open>The return-pc slot invariant\<close>

lemma tail_rel_trans:
  assumes "tail_rel R1 s s1" and "tail_rel R2 s1 s2"
      and "\<And>a b c. R1 a b \<Longrightarrow> R2 b c \<Longrightarrow> R3 a c"
  shows "tail_rel R3 s s2"
  using assms unfolding tail_rel_def
  by (auto split: if_splits) (metis)

lemma tail_rel_mono:
  "tail_rel R s s' \<Longrightarrow> (\<And>a b. R a b \<Longrightarrow> R' a b) \<Longrightarrow> tail_rel R' s s'"
  unfolding tail_rel_def by (auto split: if_splits)

lemma tail_rel_same:
  assumes "heap s' = heap s" and "w_tail s' = w_tail s" and "\<And>c. R c c"
  shows "tail_rel R s s'"
  using assms by (simp add: tail_rel_def)

lemma with_tail_rel:
  assumes "with_tail g s = Some s'" and "\<And>c. R c (g c)"
  shows "tail_rel R s s'"
proof -
  from assms(1) obtain r c where r: "w_tail s = Some r" "r < length (heap s)" "c = heap s ! r"
    "s' = store r (g c) s" by (rule with_tail_Some)
  show ?thesis
    unfolding tail_rel_def r(4) using r(1,2,3) assms(2)
    by (auto simp: store_def nth_list_update)
qed

lemma with_tail_valid:
  assumes "with_tail g s = Some s'"
  shows "\<exists>r. w_tail s' = Some r \<and> r < length (heap s')"
proof -
  from assms(1) obtain r c where r: "w_tail s = Some r" "r < length (heap s)" "c = heap s ! r"
    "s' = store r (g c) s" by (rule with_tail_Some)
  then show ?thesis by (simp add: store_def)
qed

lemma others_kept_step:
  assumes "others_kept h s1" and "tail_rel R s1 s2"
  shows "others_kept h s2"
  using assms unfolding others_kept_def tail_rel_def
  by (auto split: if_splits)


lemma copy_to_chunk_rel:
  "copy_to_chunk a b n s = Some s' \<Longrightarrow> tail_rel (\<lambda>_ _. True) s s'"
  unfolding copy_to_chunk_def by (rule with_tail_rel) simp_all

lemma patch_rel:
  "patch P f hf c b s = Some s' \<Longrightarrow> tail_rel (\<lambda>_ _. True) s s'"
  unfolding patch_def by (rule with_tail_rel) simp_all

lemma others_kept_fr [simp]:
  "others_kept h (s\<lparr>fr_align_size := x\<rparr>) = others_kept h s"
  "others_kept h (s\<lparr>fr_size := y\<rparr>) = others_kept h s"
  "others_kept h (unwind_frames s) = others_kept h s"
  by (simp_all add: others_kept_def unwind_frames_def)

lemma others_kept_store:
  assumes "others_kept h s" and "w_tail s = Some r"
  shows "others_kept h (store r c s)"
  using assms unfolding others_kept_def store_def by (auto simp: nth_list_update)

lemma finalize_freeze_tail_post:
  assumes "finalize_freeze_tail P r chunk s = Some (res, s', c')" and "w_tail s = Some r"
      and "others_kept h s"
  shows "res = freeze_ok_bottom \<and> others_kept h s'"
proof -
  from assms(1) have "res = freeze_ok_bottom"
    and s': "s' = store r (chunk\<lparr>has_mixed_frames := True,
       max_size := max_size chunk + fr_size s - metadata_words P\<rparr>) (unwind_frames s)"
    by (simp_all add: finalize_freeze_tail_def Let_def)
  moreover have "others_kept h s'"
    unfolding s' using assms(2,3) by (intro others_kept_store) simp_all
  ultimately show ?thesis by simp
qed

lemma finalize_freeze_post:
  assumes "finalize_freeze P callee asize s caller = Some (r, s', c')"
  shows "freeze_post r (heap s) s'"
proof -
  have a: "allocate_chunk P n s2 = (Some r0, s3) \<Longrightarrow> heap s2 = heap s \<Longrightarrow>
      finalize_freeze_tail P r0 ch s3 = Some (r, s', c') \<Longrightarrow> freeze_post r (heap s) s'"
    for n s2 r0 s3 ch
  proof -
    assume al: "allocate_chunk P n s2 = (Some r0, s3)" and hs: "heap s2 = heap s"
       and ft: "finalize_freeze_tail P r0 ch s3 = Some (r, s', c')"
    from allocate_chunk_Some [OF al] obtain rb where
      x: "r0 = length (heap s2)" "heap s3 = heap s2 @ [fresh_chunk n (last_nonempty_chunk s2) rb]"
      "w_tail s3 = Some r0" by blast
    have "others_kept (heap s) s3"
      using x hs by (auto simp: others_kept_def nth_append)
    from finalize_freeze_tail_post [OF ft x(3) this] show ?thesis
      by (simp add: freeze_post_def)
  qed
  have n: "allocate_chunk P n s2 = (None, s3) \<Longrightarrow> heap s2 = heap s \<Longrightarrow>
      freeze_post freeze_exception (heap s) s3"
    for n s2 s3
    using allocate_chunk_None [of P n s2 s3] by (simp add: freeze_post_def)
  have b: "finalize_freeze_tail P r0 ch s1 = Some (r, s', c') \<Longrightarrow>
      w_tail s1 = Some r0 \<Longrightarrow> deref s1 (Some r0) = Some ch0 \<Longrightarrow> heap s1 = heap s \<Longrightarrow>
      freeze_post r (heap s) s'" for r0 ch s1 ch0
  proof -
    assume ft: "finalize_freeze_tail P r0 ch s1 = Some (r, s', c')"
       and w: "w_tail s1 = Some r0" and d: "deref s1 (Some r0) = Some ch0"
       and hs: "heap s1 = heap s"
    from d have "r0 < length (heap s1)" by (simp add: deref_Some_iff)
    with w hs have "others_kept (heap s) s1" by (auto simp: others_kept_def)
    from finalize_freeze_tail_post [OF ft w this] show ?thesis by (simp add: freeze_post_def)
  qed
  show ?thesis using assms
    unfolding finalize_freeze_def Let_def
    by (auto split: option.splits bool.splits prod.splits if_splits dest: a b n)
qed


lemma freeze_post_high:
  "1 < freeze_result_code r \<Longrightarrow> freeze_post r h s' = (heap s' = h)"
  by (cases r) (simp_all add: freeze_post_def)

lemma freeze_post_low:
  "\<not> 1 < freeze_result_code r \<Longrightarrow> freeze_post r h s' = others_kept h s'"
  by (cases r) (simp_all add: freeze_post_def)

lemma recurse_java_post:
  assumes "recurse_freeze_java_frame P K f s caller fsize asize rec = Some (r, s', c')"
      and "\<And>s1 c1 a i r2 s2 c2. rec s1 c1 a i = Some (r2, s2, c2) \<Longrightarrow> freeze_post r2 (heap s1) s2"
  shows "freeze_post r (heap s) s'"
proof (cases "f_frame_bottom f \<ge> bottom_address s - 1")
  case True
  with assms(1) have "finalize_freeze P f asize (s\<lparr>fr_size := fr_size s + fsize\<rparr>) caller
      = Some (r, s', c')"
    by (simp add: recurse_freeze_java_frame_def Let_def)
  from finalize_freeze_post [OF this] show ?thesis by simp
next
  case False
  with assms(1) have "rec (s\<lparr>fr_size := fr_size s + fsize\<rparr>) caller asize (K = Interpreted)
      = Some (r, s', c')"
    by (simp add: recurse_freeze_java_frame_def Let_def)
  from assms(2) [OF this] show ?thesis by simp
qed

lemma recurse_compiled_post:
  assumes "recurse_freeze_compiled_frame P f s caller ca ci rec = Some (r, s', c')"
      and rec: "\<And>s1 c1 a i r2 s2 c2. rec s1 c1 a i = Some (r2, s2, c2) \<Longrightarrow>
                  freeze_post r2 (heap s1) s2"
  shows "freeze_post r (heap s) s'"
proof -
  let ?fs = "f_frame_bottom f + f_stack_argsize f - frame_top P Compiled f ca ci"
  obtain r0 s0 c0 where j: "recurse_freeze_java_frame P Compiled f s caller ?fs (f_stack_argsize f) rec
      = Some (r0, s0, c0)"
    using assms(1) by (auto simp: recurse_freeze_compiled_frame_def Let_def split: option.splits)
  from recurse_java_post [OF j rec] have p0: "freeze_post r0 (heap s) s0" .
  show ?thesis
  proof (cases "1 < freeze_result_code r0")
    case True
    with assms(1) j have "r = r0" "s' = s0"
      by (simp_all add: recurse_freeze_compiled_frame_def Let_def)
    with p0 show ?thesis by simp
  next
    case False
    with p0 have k0: "others_kept (heap s) s0" by (simp add: freeze_post_low)
    obtain hf caller2 where nh: "new_heap_frame P Compiled f c0 = (hf, caller2)"
      by (cases "new_heap_frame P Compiled f c0")
    from assms(1) j False nh obtain s2 s4 where
      cp: "copy_to_chunk (frame_top P Compiled f ca ci) (frame_top P Compiled hf ca ci) ?fs s0 = Some s2"
      and pt: "patch P f hf caller2 (r0 = freeze_ok_bottom)
                (if f_kind caller2 = Interpreted
                 then s2\<lparr>fr_align_size := fr_align_size s2 + align_wiggle P\<rparr> else s2) = Some s4"
      and res: "r = freeze_ok" "s' = s4"
      by (auto simp: recurse_freeze_compiled_frame_def Let_def split: option.splits)
    from others_kept_step [OF k0 copy_to_chunk_rel [OF cp]] have "others_kept (heap s) s2" .
    then have "others_kept (heap s) (if f_kind caller2 = Interpreted
                 then s2\<lparr>fr_align_size := fr_align_size s2 + align_wiggle P\<rparr> else s2)" by simp
    from others_kept_step [OF this patch_rel [OF pt]] res show ?thesis
      by (simp add: freeze_post_def)
  qed
qed

lemma recurse_interpreted_post:
  assumes "recurse_freeze_interpreted_frame P f0 s caller ca ci rec = Some (r, s', c')"
      and rec: "\<And>s1 c1 a i r2 s2 c2. rec s1 c1 a i = Some (r2, s2, c2) \<Longrightarrow>
                  freeze_post r2 (heap s1) s2"
  shows "freeze_post r (heap s) s'"
proof -
  let ?f = "adjust_interpreted_frame_unextended_sp P f0"
  let ?fs = "f_fp ?f + metadata_words P + f_max_locals ?f - frame_top P Interpreted ?f ca ci"
  obtain r0 s0 c0 where j: "recurse_freeze_java_frame P Interpreted ?f s caller ?fs (f_stack_argsize ?f) rec
      = Some (r0, s0, c0)"
    using assms(1) by (auto simp: recurse_freeze_interpreted_frame_def Let_def split: option.splits)
  from recurse_java_post [OF j rec] have p0: "freeze_post r0 (heap s) s0" .
  show ?thesis
  proof (cases "1 < freeze_result_code r0")
    case True
    with assms(1) j have "r = r0" "s' = s0"
      by (simp_all add: recurse_freeze_interpreted_frame_def Let_def)
    with p0 show ?thesis by simp
  next
    case False
    with p0 have k0: "others_kept (heap s) s0" by (simp add: freeze_post_low)
    obtain hf caller2 where nh: "new_heap_frame P Interpreted ?f c0 = (hf, caller2)"
      by (cases "new_heap_frame P Interpreted ?f c0")
    let ?s2 = "s0\<lparr>fr_align_size := fr_align_size s0 + align_wiggle P\<rparr>"
    from assms(1) j False nh obtain s3 s4 s5 s6 where
      c1: "copy_to_chunk (f_frame_bottom ?f - f_max_locals ?f)
             (f_frame_bottom hf - f_max_locals ?f) (f_max_locals ?f) ?s2 = Some s3"
      and c2: "copy_to_chunk (frame_top P Interpreted ?f ca ci) (frame_top P Interpreted hf ca ci)
             (?fs - f_max_locals ?f) s3 = Some s4"
      and c3: "with_tail (\<lambda>c. c\<lparr>mem := relativize_interpreted_frame_metadata P ?f hf (mem c)\<rparr>) s4
             = Some s5"
      and pt: "patch P ?f hf caller2 (r0 = freeze_ok_bottom) s5 = Some s6"
      and res: "r = freeze_ok" "s' = s6"
      by (auto simp: recurse_freeze_interpreted_frame_def Let_def split: option.splits)
    from k0 have "others_kept (heap s) ?s2" by simp
    from others_kept_step [OF this copy_to_chunk_rel [OF c1]] have "others_kept (heap s) s3" .
    from others_kept_step [OF this copy_to_chunk_rel [OF c2]] have k4: "others_kept (heap s) s4" .
    have "tail_rel (\<lambda>_ _. True) s4 s5" by (rule with_tail_rel [OF c3]) simp
    from others_kept_step [OF k4 this] have "others_kept (heap s) s5" .
    from others_kept_step [OF this patch_rel [OF pt]] res show ?thesis
      by (simp add: freeze_post_def)
  qed
qed

lemma recurse_stub_post:
  assumes "recurse_freeze_stub_frame P f sf s caller rec = Some (r, s', c')"
      and rec: "\<And>s1 c1 a i r2 s2 c2. rec s1 c1 a i = Some (r2, s2, c2) \<Longrightarrow>
                  freeze_post r2 (heap s1) s2"
  shows "freeze_post r (heap s) s'"
proof (cases "\<not> f_has_oop_map sf \<or> f_owning_locks sf")
  case True
  with assms(1) show ?thesis
    by (auto simp: recurse_freeze_stub_frame_def Let_def freeze_post_def split: if_splits)
next
  case ok: False
  let ?s1 = "s\<lparr>fr_size := fr_size s + f_cb_frame_size f\<rparr>"
  from ok assms(1) obtain r0 s0 c0 where
    j: "recurse_freeze_compiled_frame P sf ?s1 caller 0 False rec = Some (r0, s0, c0)"
    by (auto simp: recurse_freeze_stub_frame_def Let_def split: option.splits)
  from recurse_compiled_post [OF j rec] have p0: "freeze_post r0 (heap s) s0" by simp
  show ?thesis
  proof (cases "1 < freeze_result_code r0")
    case True
    with assms(1) j ok have "r = r0" "s' = s0"
      by (simp_all add: recurse_freeze_stub_frame_def Let_def)
    with p0 show ?thesis by simp
  next
    case False
    with p0 have k0: "others_kept (heap s) s0" by (simp add: freeze_post_low)
    obtain hf caller2 where nh: "new_heap_frame P Stub f c0 = (hf, caller2)"
      by (cases "new_heap_frame P Stub f c0")
    from assms(1) j False nh ok obtain s3 where
      cp: "copy_to_chunk (frame_top P Stub f 0 False) (frame_top P Stub hf 0 False)
             (f_cb_frame_size f) s0 = Some s3"
      and res: "r = freeze_ok" "s' = s3"
      by (auto simp: recurse_freeze_stub_frame_def Let_def split: option.splits)
    from others_kept_step [OF k0 copy_to_chunk_rel [OF cp]] res show ?thesis
      by (simp add: freeze_post_def)
  qed
qed

lemma stack_overflow_heap [simp]: "heap (snd (stack_overflow P d s)) = heap s"
  by (simp add: stack_overflow_def)

lemma freeze_frame_post:
  assumes "freeze P fs s caller ca ci is_top d = Some (r, s', c')"
  shows "freeze_post r (heap s) s'"
  using assms
proof (induction fs arbitrary: s caller ca ci is_top d r s' c' rule: length_induct)
  case (1 fs)
  show ?case
  proof (cases fs)
    case Nil
    with "1.prems" show ?thesis by (simp add: freeze.simps)
  next
    case (Cons f senders)
    note fr = "1.prems"(1) [unfolded Cons freeze.simps Let_def]
    have IH: "freeze_post r2 (heap s1) s2"
      if "length xs < length fs" "freeze P xs s1 c1 a i t dd = Some (r2, s2, c2)"
      for xs s1 c1 a i t dd r2 s2 c2
      using "1.IH" that by blast
    let ?s1 = "snd (stack_overflow P d s)"
    consider
      (direct) "s' = ?s1" "1 < freeze_result_code r"
    | (comp) "recurse_freeze_compiled_frame P f ?s1 caller ca ci
               (\<lambda>s' c' a' i'. freeze P senders s' c' a' i' False (Suc d)) = Some (r, s', c')"
    | (interp) "recurse_freeze_interpreted_frame P f ?s1 caller ca ci
               (\<lambda>s' c' a' i'. freeze P senders s' c' a' i' False (Suc d)) = Some (r, s', c')"
    | (stub) sf rest where "senders = sf # rest"
         "recurse_freeze_stub_frame P f sf ?s1 caller
               (\<lambda>s' c' a' i'. freeze P rest s' c' a' i' False (Suc d)) = Some (r, s', c')"
      using fr by (auto split: if_splits list.splits)
    then show ?thesis
    proof cases
      case direct
      then show ?thesis by (simp add: freeze_post_high)
    next
      case comp
      have r1: "freeze_post r2 (heap s1) s2"
        if "freeze P senders s1 c1 a i False (Suc d) = Some (r2, s2, c2)"
        for s1 c1 a i r2 s2 c2
        using IH [OF _ that] by (simp add: Cons)
      from recurse_compiled_post [OF comp r1] show ?thesis by simp
    next
      case interp
      have r1: "freeze_post r2 (heap s1) s2"
        if "freeze P senders s1 c1 a i False (Suc d) = Some (r2, s2, c2)"
        for s1 c1 a i r2 s2 c2
        using IH [OF _ that] by (simp add: Cons)
      from recurse_interpreted_post [OF interp r1] show ?thesis by simp
    next
      case stub
      have r1: "freeze_post r2 (heap s1) s2"
        if "freeze P rest s1 c1 a i False (Suc d) = Some (r2, s2, c2)"
        for s1 c1 a i r2 s2 c2
        using IH [OF _ that] by (simp add: Cons stub(1))
      from recurse_stub_post [OF stub(2) r1] show ?thesis by simp
    qed
  qed
qed


lemma heap_pc_ok_upd [simp]:
  "heap_pc_ok P (s\<lparr>fr_align_size := x\<rparr>) = heap_pc_ok P s"
  "heap_pc_ok P (s\<lparr>fr_size := y\<rparr>) = heap_pc_ok P s"
  "heap_pc_ok P (s\<lparr>stack := m\<rparr>) = heap_pc_ok P s"
  "heap_pc_ok P (s\<lparr>cont_tail := t\<rparr>) = heap_pc_ok P s"
  "heap_pc_ok P (s\<lparr>w_tail := t\<rparr>) = heap_pc_ok P s"
  "heap_pc_ok P (s\<lparr>has_pending_exception := b\<rparr>) = heap_pc_ok P s"
  "heap_pc_ok P (s\<lparr>held_monitor_count := k\<rparr>) = heap_pc_ok P s"
  "heap_pc_ok P (s\<lparr>th_fastpath := a\<rparr>) = heap_pc_ok P s"
  "heap_pc_ok P (s\<lparr>cont_fastpath := b\<rparr>) = heap_pc_ok P s"
  "heap_pc_ok P (s\<lparr>barriers := b\<rparr>) = heap_pc_ok P s"
  "heap_pc_ok P (s\<lparr>entry_argsize := a\<rparr>) = heap_pc_ok P s"
  by (simp_all add: heap_pc_ok_def)

lemma heap_pc_ok_cong: "heap s' = heap s \<Longrightarrow> heap_pc_ok P s' = heap_pc_ok P s"
  by (simp add: heap_pc_ok_def)

lemma heap_pc_ok_store:
  assumes "heap_pc_ok P s" and "pc_slot_ok P c"
  shows "heap_pc_ok P (store r c s)"
  using assms
  by (cases "r < length (heap s)") (simp_all add: heap_pc_ok_def store_def nth_list_update)

lemma others_kept_pc_ok:
  assumes "others_kept h s'" and "\<forall>i<length h. pc_slot_ok P (h ! i)"
      and "w_tail s' = Some r" and "pc_slot_ok P c"
  shows "heap_pc_ok P (store r c s')"
  unfolding heap_pc_ok_def store_def
proof (intro allI impI)
  fix i assume "i < length (heap (s'\<lparr>heap := (heap s')[r := c]\<rparr>))"
  then have i: "i < length (heap s')" by simp
  show "pc_slot_ok P (heap (s'\<lparr>heap := (heap s')[r := c]\<rparr>) ! i)"
  proof (cases "i = r")
    case True
    with i assms(4) show ?thesis by simp
  next
    case False
    with assms(3) have ne: "Some i \<noteq> w_tail s'" by simp
    from assms(1) i ne have
      k: "if i < length h then heap s' ! i = h ! i else is_empty (heap s' ! i)"
      unfolding others_kept_def by blast
    show ?thesis
    proof (cases "i < length h")
      case True
      with k assms(2) False show ?thesis by simp
    next
      case F: False
      with k False show ?thesis by (simp add: pc_slot_ok_def)
    qed
  qed
qed

lemma freeze_slow_pc_ok:
  assumes fs: "freeze_slow P fs s = Some (r, s')" and inv: "heap_pc_ok P s"
      and top: "\<And>f m. set_top_frame_metadata_pd P f m (f_sp f - sender_sp_ret_address_offset P)
                  = f_pc f"
      and bar: "\<And>c. do_barriers P c (sp c - sender_sp_ret_address_offset P)
                  = mem c (sp c - sender_sp_ret_address_offset P)"
  shows "heap_pc_ok P s'"
proof -
  let ?s1 = "s\<lparr>fr_size := 0, fr_align_size := 0\<rparr>"
  from fs obtain fl where fl: "freeze_start_frame P ?s1 fs = Some fl"
    by (cases "freeze_start_frame P ?s1 fs") (simp_all add: freeze_slow_def Let_def)
  with fs obtain res s2 caller where
    f: "freeze P fl ?s1 empty_frame 0 False True 0 = Some (res, s2, caller)"
    by (cases "freeze P fl ?s1 empty_frame 0 False True 0")
       (auto simp: freeze_slow_def Let_def)
  from freeze_frame_post [OF f] have post: "freeze_post res (heap s) s2" by simp
  show ?thesis
  proof (cases "res = freeze_ok")
    case True
    with fs fl f obtain s3 where ff: "finish_freeze P caller s2 = Some s3"
      and s': "s' = cont_write s3"
      by (auto simp: freeze_slow_def Let_def split: option.splits)
    from post True have k: "others_kept (heap s) s2" by (simp add: freeze_post_def)
    let ?g = "\<lambda>chunk.
       let c1 = chunk\<lparr>mem := set_top_frame_metadata_pd P caller (mem chunk),
                      sp := f_sp caller, pc := f_pc caller,
                      max_size := max_size chunk + fr_align_size s2\<rparr>
       in if barriers s2 then c1\<lparr>mem := do_barriers P c1\<rparr> else c1"
    from ff have "with_tail ?g s2 = Some s3" by (simp add: finish_freeze_def)
    then obtain r0 c where r0: "w_tail s2 = Some r0" "s3 = store r0 (?g c) s2"
      by (rule with_tail_Some)
    have "pc_slot_ok P (?g c)"
      using bar [of "c\<lparr>mem := set_top_frame_metadata_pd P caller (mem c),
                      sp := f_sp caller, pc := f_pc caller,
                      max_size := max_size c + fr_align_size s2\<rparr>"]
      by (simp add: pc_slot_ok_def Let_def top)
    from others_kept_pc_ok [OF k _ r0(1) this] inv have "heap_pc_ok P s3"
      unfolding r0(2) by (simp add: heap_pc_ok_def)
    then show ?thesis unfolding s' by (simp add: cont_write_def)
  next
    case False
    with fs fl f have s': "s' = s2"
      by (auto simp: freeze_slow_def Let_def split: option.splits)
    from freeze_mixed [OF f] False have "res \<noteq> freeze_ok_bottom" by auto
    with False post have "heap s2 = heap s" by (simp add: freeze_post_def)
    with inv show ?thesis unfolding s' by (simp add: heap_pc_ok_def)
  qed
qed

lemma freeze_fast_copy_pc_ok:
  assumes r: "r < length (heap s)"
      and inv: "heap_pc_ok P s"
      and ro: "0 < sender_sp_ret_address_offset P"
              "sender_sp_ret_address_offset P \<le> metadata_words P"
      and sz: "0 \<le> entry_argsize s" "entry_argsize s < cont_size P s frame_sp"
  shows "heap_pc_ok P (freeze_fast_copy P frame_sp r chunk start s)"
proof -
  let ?ro = "sender_sp_ret_address_offset P"
  let ?cs = "cont_size P s frame_sp"
  let ?c' = "chunk\<lparr>mem := (copy_words (stack s) (cont_stack_top P frame_sp - metadata_words P)
                     (mem chunk) (start - ?cs - metadata_words P)
                     (?cs + metadata_words P))
                  (start - entry_argsize s - ?ro := pc chunk),
              sp := start - ?cs,
              pc := stack s (cont_stack_top P frame_sp - ?ro)\<rparr>"
  have h: "freeze_fast_copy P frame_sp r chunk start s = cont_write (store r ?c' (unwind_frames s))"
    by (simp add: freeze_fast_copy_def Let_def unwind_frames_def cont_size_def
        cont_stack_bottom_def)
  have ok: "pc_slot_ok P ?c'"
    using ro sz by (simp add: pc_slot_ok_def copy_words_def)
  have "heap_pc_ok P (unwind_frames s)"
    using inv by (simp add: heap_pc_ok_def unwind_frames_def)
  from heap_pc_ok_store [OF this ok] show ?thesis
    unfolding h by (simp add: cont_write_def)
qed


lemma fresh_chunk_pc_ok: "pc_slot_ok P (fresh_chunk n p rb)"
  by (simp add: pc_slot_ok_def is_empty_def fresh_chunk_def)

lemma heap_pc_ok_append:
  "heap s1 = heap s @ [c] \<Longrightarrow> heap_pc_ok P s \<Longrightarrow> pc_slot_ok P c \<Longrightarrow> heap_pc_ok P s1"
  by (auto simp: heap_pc_ok_def nth_append less_Suc_eq)

lemma freeze_fast_pc_ok:
  assumes ff: "freeze_fast P ca frame_sp s = Some (b, s1)"
      and inv: "heap_pc_ok P s"
      and ro: "0 < sender_sp_ret_address_offset P"
              "sender_sp_ret_address_offset P \<le> metadata_words P"
      and sz: "0 \<le> entry_argsize s" "entry_argsize s < cont_size P s frame_sp"
  shows "heap_pc_ok P s1"
proof (cases ca)
  case True
  with ff obtain r chunk where w: "w_tail s = Some r" and d: "deref s (Some r) = Some chunk"
    by (auto simp: freeze_fast_def Let_def split: option.splits)
  from d have r: "r < length (heap s)" by (simp add: deref_Some_iff)
  have cs: "cont_size P (s\<lparr>stack := m\<rparr>) frame_sp = cont_size P s frame_sp" for m
    by (simp add: cont_size_def cont_stack_bottom_def)
  show ?thesis
  proof (cases "sp chunk < stack_size chunk")
    case ne: True
    let ?s1 = "s\<lparr>stack := patch_stack_pd P (cont_stack_bottom P s - entry_argsize s) (sp chunk)
                         (mem chunk) (stack s)\<rparr>"
    from ff True w d ne have s1: "s1 = freeze_fast_copy P frame_sp r
        (chunk\<lparr>max_size := max_size chunk + cont_size P s frame_sp - entry_argsize s\<rparr>)
        (sp chunk + entry_argsize s) ?s1"
      by (simp add: freeze_fast_def Let_def)
    show ?thesis unfolding s1
      by (rule freeze_fast_copy_pc_ok) (use r inv ro sz in \<open>simp_all add: cs\<close>)
  next
    case False
    with ff True w d have s1: "s1 = freeze_fast_copy P frame_sp r
        (chunk\<lparr>max_size := cont_size P s frame_sp, argsize := entry_argsize s\<rparr>) (sp chunk) s"
      by (simp add: freeze_fast_def Let_def)
    show ?thesis unfolding s1
      by (rule freeze_fast_copy_pc_ok) (use r inv ro sz in simp_all)
  qed
next
  case False
  let ?n = "cont_size P s frame_sp + metadata_words P"
  obtain ro' sa where al: "allocate_chunk P ?n s = (ro', sa)"
    by (cases "allocate_chunk P ?n s")
  show ?thesis
  proof (cases ro')
    case None
    with ff False al have "s1 = sa" by (simp add: freeze_fast_def Let_def)
    moreover from allocate_chunk_None [OF al [unfolded None]] have "heap sa = heap s" by simp
    ultimately show ?thesis using inv by (simp add: heap_pc_ok_def)
  next
    case (Some r)
    from allocate_chunk_Some [OF al [unfolded Some]] obtain rb where
      x: "r = length (heap s)" "heap sa = heap s @ [fresh_chunk ?n (last_nonempty_chunk s) rb]"
      "entry_argsize sa = entry_argsize s" "entrySP sa = entrySP s" by blast
    from heap_pc_ok_append [OF x(2) inv fresh_chunk_pc_ok] have ia: "heap_pc_ok P sa" .
    show ?thesis
    proof (cases "\<not> cont_fastpath sa \<or> barriers sa")
      case True
      with ff False al Some have "s1 = sa" by (simp add: freeze_fast_def Let_def)
      with ia show ?thesis by simp
    next
      case F: False
      have ra: "r < length (heap sa)" using x by simp
      then obtain ch where d: "deref sa (Some r) = Some ch" by (simp add: deref_def)
      from ff False al Some F d have s1: "s1 = freeze_fast_copy P frame_sp r
          (ch\<lparr>max_size := cont_size P s frame_sp, argsize := entry_argsize sa\<rparr>)
          (cont_size P s frame_sp + metadata_words P) sa"
        by (simp add: freeze_fast_def Let_def)
      have cs: "cont_size P sa frame_sp = cont_size P s frame_sp"
        by (rule cont_size_cong [OF x(4) x(3)])
      show ?thesis unfolding s1
        by (rule freeze_fast_copy_pc_ok) (use ra ia ro sz x(3) cs in simp_all)
    qed
  qed
qed

lemma try_freeze_fast_pc_ok:
  assumes tf: "try_freeze_fast P ca frame_sp fs s = Some (r, s')"
      and inv: "heap_pc_ok P s"
      and ro: "0 < sender_sp_ret_address_offset P"
              "sender_sp_ret_address_offset P \<le> metadata_words P"
      and sz: "0 \<le> entry_argsize s" "entry_argsize s < cont_size P s frame_sp"
      and top: "\<And>f m. set_top_frame_metadata_pd P f m (f_sp f - sender_sp_ret_address_offset P)
                  = f_pc f"
      and bar: "\<And>c. do_barriers P c (sp c - sender_sp_ret_address_offset P)
                  = mem c (sp c - sender_sp_ret_address_offset P)"
  shows "heap_pc_ok P s'"
proof -
  from tf obtain b s1 where ff: "freeze_fast P ca frame_sp s = Some (b, s1)"
    by (cases "freeze_fast P ca frame_sp s") (auto simp: try_freeze_fast_def)
  from freeze_fast_pc_ok [OF ff inv ro sz] have i1: "heap_pc_ok P s1" .
  show ?thesis
  proof (cases "b \<or> has_pending_exception s1")
    case True
    with tf ff have "s' = s1" by (cases b) (auto simp: try_freeze_fast_def)
    with i1 show ?thesis by simp
  next
    case False
    with tf ff have "freeze_slow P fs s1 = Some (r, s')" by (simp add: try_freeze_fast_def)
    from freeze_slow_pc_ok [OF this i1 top bar] show ?thesis .
  qed
qed

lemma freeze_internal_pc_ok:
  assumes fi: "freeze_internal P frame_sp fs s = Some (res, s')"
      and inv: "heap_pc_ok P s"
      and ro: "0 < sender_sp_ret_address_offset P"
              "sender_sp_ret_address_offset P \<le> metadata_words P"
      and sz: "0 \<le> entry_argsize s" "entry_argsize s < cont_size P s frame_sp"
      and top: "\<And>f m. set_top_frame_metadata_pd P f m (f_sp f - sender_sp_ret_address_offset P)
                  = f_pc f"
      and bar: "\<And>c. do_barriers P c (sp c - sender_sp_ret_address_offset P)
                  = mem c (sp c - sender_sp_ret_address_offset P)"
  shows "heap_pc_ok P s'"
proof (cases "entry_pinned (open_wrapper s)")
  case True
  with fi have "s' = open_wrapper s" by (simp add: freeze_internal_def Let_def)
  with inv show ?thesis by (simp add: open_wrapper_def)
next
  case False
  let ?s1 = "FreezeBase False (open_wrapper s)"
  have h1: "heap ?s1 = heap s" "entry_argsize ?s1 = entry_argsize s" "entrySP ?s1 = entrySP s"
    by (simp_all add: FreezeBase_def open_wrapper_def Let_def)
  have i1: "heap_pc_ok P ?s1" using inv h1(1) by (simp add: heap_pc_ok_def)
  have cs: "cont_size P ?s1 frame_sp = cont_size P s frame_sp"
    by (rule cont_size_cong [OF h1(3) h1(2)])
  have sz1: "0 \<le> entry_argsize ?s1" "entry_argsize ?s1 < cont_size P ?s1 frame_sp"
    using sz h1(2) cs by simp_all
  from fi False consider
    (fast) ca r where "try_freeze_fast P ca frame_sp fs ?s1 = Some (r, s')"
  | (slow) r where "freeze_slow P fs ?s1 = Some (r, s')"
    by (auto simp: freeze_internal_def Let_def split: if_splits option.splits)
  then show ?thesis
  proof cases
    case fast
    from try_freeze_fast_pc_ok [OF fast i1 ro sz1 top bar] show ?thesis .
  next
    case slow
    from freeze_slow_pc_ok [OF slow i1 top bar] show ?thesis .
  qed
qed


lemma same_thawed:
  "same_hdr A a b \<Longrightarrow> thawed_hdr A cfs b c \<Longrightarrow> thawed_hdr A cfs a c"
  by (auto simp: same_hdr_def thawed_hdr_def)

lemma thawed_same:
  "thawed_hdr A cfs a b \<Longrightarrow> same_hdr A b c \<Longrightarrow> thawed_hdr A cfs a c"
  by (auto simp: same_hdr_def thawed_hdr_def is_empty_def)

lemma thawed_hdr_mono:
  "thawed_hdr A cfs a b \<Longrightarrow> set cfs \<subseteq> set cfs' \<Longrightarrow> thawed_hdr A cfs' a b"
  by (auto simp: thawed_hdr_def)

lemma same_hdr_refl [simp]: "same_hdr A c c"
  by (simp add: same_hdr_def)

lemma tail_rel_stack [simp]:
  "tail_rel R s (s'\<lparr>stack := m\<rparr>) = tail_rel R s s'"
  "tail_rel R s (s'\<lparr>fr_align_size := x\<rparr>) = tail_rel R s s'"
  "tail_rel R s (s'\<lparr>entry_argsize := y\<rparr>) = tail_rel R s s'"
  "tail_rel R s (maybe_set_fastpath a s') = tail_rel R s s'"
  "tail_rel R s (thaw_patch P f c b s') = tail_rel R s s'"
  by (simp_all add: tail_rel_def maybe_set_fastpath_def thaw_patch_def Let_def)

lemma tail_rel_refl: "(\<And>c. R c c) \<Longrightarrow> tail_rel R s s"
  by (simp add: tail_rel_def)

lemma copy_from_chunk_rel:
  assumes "copy_from_chunk a b n s = Some s'"
  shows "tail_rel (same_hdr A) s s'"
  using assms by (auto simp: copy_from_chunk_def tail_rel_def)

lemma thaw_barriers_rel:
  assumes "thaw_barriers P hf s = Some s'"
      and "\<And>c a. a \<in> A \<Longrightarrow> do_barriers_frame P hf c a = mem c a"
  shows "tail_rel (same_hdr A) s s'"
proof (cases "seen_by_gc s")
  case None
  with assms show ?thesis by (simp add: thaw_barriers_def)
next
  case (Some b)
  show ?thesis
  proof (cases b)
    case True
    with Some assms have "with_tail (\<lambda>c. c\<lparr>mem := do_barriers_frame P hf c\<rparr>) s = Some s'"
      by (simp add: thaw_barriers_def)
    then show ?thesis by (rule with_tail_rel) (simp add: same_hdr_def assms(2))
  next
    case False
    with Some assms show ?thesis by (simp add: thaw_barriers_def tail_rel_refl)
  qed
qed

lemma finalize_thaw_rel:
  assumes "finalize_thaw P cfs e asize s = Some (s', c')"
  shows "tail_rel (thawed_hdr A cfs) s s'"
proof -
  let ?g = "\<lambda>chunk.
             let c1 = (if cfs \<noteq> []
                       then chunk\<lparr>sp := f_sp (stream_frame cfs e), pc := f_pc (stream_frame cfs e)\<rparr>
                       else chunk\<lparr>argsize := 0, sp := stack_size chunk, pc := 0\<rparr>);
                 delta = f_unextended_sp (stream_frame cfs e) - top_unextended_sp s
             in c1\<lparr>max_size := max_size c1 - delta\<rparr>"
  from assms obtain s1 where w: "with_tail ?g s = Some s1"
    and s': "s' = s1\<lparr>entry_argsize := asize\<rparr>"
    by (auto simp: finalize_thaw_def Let_def split: option.splits)
  have "thawed_hdr A cfs c (?g c)" for c
  proof (cases cfs)
    case Nil
    then show ?thesis by (simp add: thawed_hdr_def Let_def is_empty_def)
  next
    case (Cons g rest)
    then show ?thesis by (simp add: thawed_hdr_def Let_def stream_frame_def)
  qed
  from with_tail_rel [OF w, of "thawed_hdr A cfs", OF this] show ?thesis
    unfolding s' by simp
qed

lemma thaw_fix_or_clear_rel:
  assumes "thaw_fix_or_clear P bottom caller start n s = Some s'"
  shows "tail_rel (same_hdr A) s s'"
proof -
  from assms obtain r c where r: "w_tail s = Some r" "deref s (Some r) = Some c"
    by (auto simp: thaw_fix_or_clear_def split: option.splits)
  then have rl: "r < length (heap s)" "heap s ! r = c" by (simp_all add: deref_Some_iff)
  from assms r consider "s' = s\<lparr>stack := fix_thawed_frame P c caller (stack s)\<rparr>"
    | "s' = store r (clear_bitmap_bits start n c) s" | "s' = s"
    by (auto simp: thaw_fix_or_clear_def split: if_splits)
  then show ?thesis
  proof cases
    case 2
    show ?thesis unfolding 2 using r(1) rl
      by (auto simp: tail_rel_def store_def nth_list_update same_hdr_def clear_bitmap_bits_def)
  qed (simp_all add: tail_rel_refl)
qed

lemma recurse_thaw_java_rel:
  assumes "recurse_thaw_java_frame P K hf rest e s caller n rec = Some (b, s', c')"
      and "\<And>s1 c1 n1 s2 c2. rec s1 c1 n1 = Some (s2, c2) \<Longrightarrow> tail_rel (thawed_hdr A rest) s1 s2"
  shows "tail_rel (thawed_hdr A rest) s s'"
  using assms
  by (auto simp: recurse_thaw_java_frame_def Let_def split: if_splits dest: finalize_thaw_rel)


lemma rel_pre:
  "tail_rel (same_hdr A) s s0 \<Longrightarrow> tail_rel (thawed_hdr A cfs) s0 s1 \<Longrightarrow>
   tail_rel (thawed_hdr A cfs) s s1"
  by (erule tail_rel_trans, assumption) (rule same_thawed)

lemma rel_post:
  "tail_rel (thawed_hdr A cfs) s s1 \<Longrightarrow> tail_rel (same_hdr A) s1 s2 \<Longrightarrow>
   tail_rel (thawed_hdr A cfs) s s2"
  by (erule tail_rel_trans, assumption) (rule thawed_same)

lemma recurse_thaw_compiled_rel:
  assumes "recurse_thaw_compiled_frame P hf rest e s caller n stub_caller rec = Some (s', c')"
      and rec: "\<And>s1 c1 n1 s2 c2. rec s1 c1 n1 = Some (s2, c2) \<Longrightarrow>
              tail_rel (thawed_hdr A rest) s1 s2"
      and bar: "\<And>hf c a. a \<in> A \<Longrightarrow> do_barriers_frame P hf c a = mem c a"
  shows "tail_rel (thawed_hdr A rest) s s'"
proof -
  from assms(1) obtain s0 where
    b: "(if \<not> stub_caller then thaw_barriers P hf s else Some s) = Some s0"
    by (auto simp: recurse_thaw_compiled_frame_def split: option.splits)
  have i0: "tail_rel (same_hdr A) s s0"
    using b by (auto split: if_splits intro: thaw_barriers_rel bar tail_rel_refl)
  from assms(1) b obtain bottom s1 caller1 where
    j: "recurse_thaw_java_frame P Compiled hf rest e s0 caller n rec = Some (bottom, s1, caller1)"
    by (auto simp: recurse_thaw_compiled_frame_def split: option.splits)
  from recurse_thaw_java_rel [OF j rec]
  have i1: "tail_rel (thawed_hdr A rest) s0 s1" .
  from assms(1) b j obtain chunk where ch: "deref s1 (w_tail s1) = Some chunk"
    by (auto simp: recurse_thaw_compiled_frame_def split: option.splits)
  let ?s2 = "if (\<not> bottom \<and> f_kind caller1 = Interpreted)
                       \<or> (bottom \<and> interpreter_contains P (pc chunk))
             then s1\<lparr>fr_align_size := fr_align_size s1 + align_wiggle P\<rparr> else s1"
  have i2: "tail_rel (thawed_hdr A rest) s0 ?s2" using i1 by simp
  obtain f caller2 where nf: "new_stack_frame P Compiled hf caller1 bottom = (f, caller2)"
    by (cases "new_stack_frame P Compiled hf caller1 bottom")
  let ?added = "if bottom \<or> f_kind caller2 = Interpreted then f_stack_argsize hf else 0"
  from assms(1) b j ch nf obtain s3 where
    cp: "copy_from_chunk (f_unextended_sp hf - metadata_words P) (f_sp f - metadata_words P)
           (f_cb_frame_size hf + ?added + metadata_words P) ?s2 = Some s3"
    by (auto simp: recurse_thaw_compiled_frame_def Let_def split: option.splits)
  from rel_post [OF i2 copy_from_chunk_rel [OF cp]]
  have i3: "tail_rel (thawed_hdr A rest) s0 s3" .
  let ?s4 = "thaw_patch P f caller2 bottom s3"
  obtain f1 s5 where d: "(if f_deoptimized f then (f, maybe_set_fastpath (f_sp f) ?s4)
                         else if is_interp_only_mode ?s4
                                 \<or> (is_preempted ?s4 \<and> f_marked_for_deoptimization f)
                         then (let (fd, m) = deoptimize P f (stack ?s4)
                               in (fd, maybe_set_fastpath (f_sp fd) (?s4\<lparr>stack := m\<rparr>)))
                         else (f, ?s4)) = (f1, s5)"
    by (cases "(if f_deoptimized f then (f, maybe_set_fastpath (f_sp f) ?s4)
                         else if is_interp_only_mode ?s4
                                 \<or> (is_preempted ?s4 \<and> f_marked_for_deoptimization f)
                         then (let (fd, m) = deoptimize P f (stack ?s4)
                               in (fd, maybe_set_fastpath (f_sp fd) (?s4\<lparr>stack := m\<rparr>)))
                         else (f, ?s4))")
  have i5: "tail_rel (thawed_hdr A rest) s0 s5"
    using d i3 by (auto simp: Let_def split: if_splits prod.splits)
  from assms(1) b j ch nf cp d have
    fx: "thaw_fix_or_clear P bottom caller2 (f_unextended_sp hf + f_cb_frame_size hf) ?added s5
          = Some s'"
    by (auto simp: recurse_thaw_compiled_frame_def Let_def split: option.splits)
  from rel_pre [OF i0 rel_post [OF i5 thaw_fix_or_clear_rel [OF fx]]] show ?thesis .
qed

lemma recurse_thaw_interpreted_rel:
  assumes "recurse_thaw_interpreted_frame P hf rest e s caller n rec = Some (s', c')"
      and rec: "\<And>s1 c1 n1 s2 c2. rec s1 c1 n1 = Some (s2, c2) \<Longrightarrow>
              tail_rel (thawed_hdr A rest) s1 s2"
      and bar: "\<And>hf c a. a \<in> A \<Longrightarrow> do_barriers_frame P hf c a = mem c a"
  shows "tail_rel (thawed_hdr A rest) s s'"
proof -
  from assms(1) obtain s0 where b: "thaw_barriers P hf s = Some s0"
    by (auto simp: recurse_thaw_interpreted_frame_def split: option.splits)
  from thaw_barriers_rel [OF b bar] have i0: "tail_rel (same_hdr A) s s0" by simp
  from assms(1) b obtain bottom s1 caller1 where
    j: "recurse_thaw_java_frame P Interpreted hf rest e s0 caller n rec = Some (bottom, s1, caller1)"
    by (auto simp: recurse_thaw_interpreted_frame_def split: option.splits)
  from recurse_thaw_java_rel [OF j rec]
  have i1: "tail_rel (thawed_hdr A rest) s0 s1" .
  let ?s2 = "s1\<lparr>fr_align_size := fr_align_size s1 + align_wiggle P\<rparr>"
  have i2: "tail_rel (thawed_hdr A rest) s0 ?s2" using i1 by simp
  obtain f caller2 where nf: "new_stack_frame P Interpreted hf caller1 bottom = (f, caller2)"
    by (cases "new_stack_frame P Interpreted hf caller1 bottom")
  from assms(1) b j nf obtain s3 s4 where
    c1: "copy_from_chunk (f_frame_bottom hf - f_max_locals hf) (f_frame_bottom f - f_max_locals hf)
           (f_max_locals hf) ?s2 = Some s3"
    and c2: "copy_from_chunk (f_unextended_sp hf) (f_sp f)
           (f_frame_bottom hf - f_unextended_sp hf - f_max_locals hf) s3 = Some s4"
    by (auto simp: recurse_thaw_interpreted_frame_def Let_def split: option.splits)
  from rel_post [OF rel_post [OF i2 copy_from_chunk_rel [OF c1]] copy_from_chunk_rel [OF c2]]
  have i4: "tail_rel (thawed_hdr A rest) s0 s4" .
  let ?m2 = "derelativize_interpreted_frame_metadata P hf f
               (set_interpreter_frame_bottom P f (f_frame_bottom f) (stack s4))"
  let ?s6 = "maybe_set_fastpath (f_sp f) (thaw_patch P f caller2 bottom (s4\<lparr>stack := ?m2\<rparr>))"
  have i6: "tail_rel (thawed_hdr A rest) s0 ?s6" using i4 by simp
  from assms(1) b j nf c1 c2 have
    fx: "thaw_fix_or_clear P bottom caller2 (f_frame_bottom hf - f_max_locals hf) (f_max_locals hf) ?s6
          = Some s'"
    by (auto simp: recurse_thaw_interpreted_frame_def Let_def split: option.splits)
  from rel_pre [OF i0 rel_post [OF i6 thaw_fix_or_clear_rel [OF fx]]] show ?thesis .
qed

lemma recurse_thaw_stub_rel:
  assumes "recurse_thaw_stub_frame P hf hf2 rest e s caller n rec = Some (s', c')"
      and rec: "\<And>s1 c1 n1 s2 c2. rec s1 c1 n1 = Some (s2, c2) \<Longrightarrow>
              tail_rel (thawed_hdr A rest) s1 s2"
      and bar: "\<And>hf c a. a \<in> A \<Longrightarrow> do_barriers_frame P hf c a = mem c a"
  shows "tail_rel (thawed_hdr A rest) s s'"
proof -
  from assms(1) obtain s0 where b: "thaw_barriers P hf2 s = Some s0"
    by (auto simp: recurse_thaw_stub_frame_def split: option.splits)
  from thaw_barriers_rel [OF b bar] have i0: "tail_rel (same_hdr A) s s0" by simp
  from assms(1) b obtain s1 caller1 where
    j: "recurse_thaw_compiled_frame P hf2 rest e s0 caller n True rec = Some (s1, caller1)"
    by (auto simp: recurse_thaw_stub_frame_def split: option.splits)
  from recurse_thaw_compiled_rel [OF j rec bar]
  have i1: "tail_rel (thawed_hdr A rest) s0 s1" by simp
  obtain f caller2 where nf: "new_stack_frame P Stub hf caller1 False = (f, caller2)"
    by (cases "new_stack_frame P Stub hf caller1 False")
  from assms(1) b j nf obtain s2 c where
    cp: "copy_from_chunk (f_sp hf - metadata_words P) (f_sp f - metadata_words P)
           (f_cb_frame_size hf + metadata_words P) s1 = Some s2"
    and s': "s' = s2\<lparr>stack := fix_thawed_frame P c caller2 (stack s2)\<rparr>"
    by (auto simp: recurse_thaw_stub_frame_def Let_def split: option.splits)
  from rel_pre [OF i0 rel_post [OF i1 copy_from_chunk_rel [OF cp]]] show ?thesis
    unfolding s' by simp
qed

lemma thaw_one_frame_rel:
  assumes "thaw_one_frame P cfs e s caller n is_top = Some (s', c')"
      and bar: "\<And>hf c a. a \<in> A \<Longrightarrow> do_barriers_frame P hf c a = mem c a"
  shows "tail_rel (thawed_hdr A cfs) s s'"
  using assms(1)
proof (induction cfs arbitrary: s caller n is_top s' c' rule: length_induct)
  case (1 cfs)
  show ?case
  proof (cases cfs)
    case Nil
    with "1.prems" show ?thesis by (simp add: thaw_one_frame.simps)
  next
    case (Cons hf rest)
    note fr = "1.prems" [unfolded Cons thaw_one_frame.simps]
    have IH: "tail_rel (thawed_hdr A xs) s1 s2"
      if "length xs < length cfs" "thaw_one_frame P xs e s1 c1 n1 False = Some (s2, c2)"
      for xs s1 c1 n1 s2 c2
      using "1.IH" that by blast
    consider
      (stub) hf2 rest2 where "rest = hf2 # rest2"
        "recurse_thaw_stub_frame P hf hf2 rest2 e s caller n
               (\<lambda>s' c' n'. thaw_one_frame P rest2 e s' c' n' False) = Some (s', c')"
    | (comp) "recurse_thaw_compiled_frame P hf rest e s caller n False
          (\<lambda>s' c' n'. thaw_one_frame P rest e s' c' n' False) = Some (s', c')"
    | (interp) "recurse_thaw_interpreted_frame P hf rest e s caller n
          (\<lambda>s' c' n'. thaw_one_frame P rest e s' c' n' False) = Some (s', c')"
      using fr by (auto split: if_splits list.splits)
    then show ?thesis
    proof cases
      case stub
      have r: "tail_rel (thawed_hdr A rest2) s1 s2"
        if "thaw_one_frame P rest2 e s1 c1 n1 False = Some (s2, c2)" for s1 c1 n1 s2 c2
        using IH [OF _ that] by (simp add: Cons stub(1))
      from recurse_thaw_stub_rel [OF stub(2) r bar]
      have "tail_rel (thawed_hdr A rest2) s s'" by simp
      then show ?thesis
        by (rule tail_rel_mono) (auto simp: Cons stub(1) intro: thawed_hdr_mono)
    next
      case comp
      have r: "tail_rel (thawed_hdr A rest) s1 s2"
        if "thaw_one_frame P rest e s1 c1 n1 False = Some (s2, c2)" for s1 c1 n1 s2 c2
        using IH [OF _ that] by (simp add: Cons)
      from recurse_thaw_compiled_rel [OF comp r bar]
      have "tail_rel (thawed_hdr A rest) s s'" by simp
      then show ?thesis
        by (rule tail_rel_mono) (auto simp: Cons intro: thawed_hdr_mono)
    next
      case interp
      have r: "tail_rel (thawed_hdr A rest) s1 s2"
        if "thaw_one_frame P rest e s1 c1 n1 False = Some (s2, c2)" for s1 c1 n1 s2 c2
        using IH [OF _ that] by (simp add: Cons)
      from recurse_thaw_interpreted_rel [OF interp r bar]
      have "tail_rel (thawed_hdr A rest) s s'" by simp
      then show ?thesis
        by (rule tail_rel_mono) (auto simp: Cons intro: thawed_hdr_mono)
    qed
  qed
qed


lemma heap_pc_ok_update:
  assumes "heap s' = (heap s)[r := c']" and "heap_pc_ok P s" and "pc_slot_ok P c'"
  shows "heap_pc_ok P s'"
  using assms
  by (cases "r < length (heap s)") (simp_all add: heap_pc_ok_def nth_list_update)

lemma thaw_fast_pc_ok:
  assumes "thaw_fast P r s = Some (n, s')" and "heap_pc_ok P s"
  shows "heap_pc_ok P s'"
proof -
  from assms(1) obtain c where d: "deref s (Some r) = Some c"
    by (cases "deref s (Some r)") (simp_all add: thaw_fast_def)
  let ?fsz = "cb_frame_size P (stream_pc P c (sp c))"
  let ?c' = "if stack_size c - sp c < 500 \<or> stream_is_done c (sp c + ?fsz)
             then c\<lparr>sp := stack_size c, argsize := 0, max_size := 0\<rparr>
             else c\<lparr>sp := sp c + ?fsz, max_size := max_size c - ?fsz,
                    pc := stream_pc P c (sp c + ?fsz)\<rparr>"
  have hs: "heap s' = (heap s)[r := ?c']"
  proof (cases "stack_size c - sp c < 500")
    case True
    with assms(1) d show ?thesis
      by (auto simp: thaw_fast_def Let_def TEST_THAW_ONE_CHUNK_FRAME_def threshold_def
          patch_return_def store_def)
  next
    case nb: False
    show ?thesis
    proof (cases "stream_is_done c (sp c + ?fsz)")
      case True
      with assms(1) d nb show ?thesis
        by (auto simp: thaw_fast_def Let_def TEST_THAW_ONE_CHUNK_FRAME_def threshold_def
            patch_return_def store_def)
    next
      case False
      with assms(1) d nb show ?thesis
        by (auto simp: thaw_fast_def Let_def TEST_THAW_ONE_CHUNK_FRAME_def threshold_def
            patch_return_def store_def)
    qed
  qed
  have "pc_slot_ok P ?c'"
    by (simp add: pc_slot_ok_def is_empty_def stream_pc_def)
  from heap_pc_ok_update [OF hs assms(2) this] show ?thesis .
qed

lemma thaw_slow_pc_ok:
  assumes ts: "thaw_slow P r rb s = Some (n, s')" and inv: "heap_pc_ok P s"
      and w: "w_tail s = Some r" and d: "deref s (Some r) = Some c"
      and cur: "\<And>g. g \<in> set (chunk_frames P c) \<Longrightarrow>
                  f_pc g = mem c (f_sp g - sender_sp_ret_address_offset P)"
      and bar: "\<And>hf c' g. g \<in> set (chunk_frames P c) \<Longrightarrow>
                  do_barriers_frame P hf c' (f_sp g - sender_sp_ret_address_offset P)
                    = mem c' (f_sp g - sender_sp_ret_address_offset P)"
  shows "heap_pc_ok P s'"
proof -
  let ?ro = "sender_sp_ret_address_offset P"
  let ?cfs = "chunk_frames P c"
  let ?A = "(\<lambda>g. f_sp g - ?ro) ` set ?cfs"
  let ?e = "stack_size c - argsize c"
  let ?s0 = "s\<lparr>fr_align_size := 0, top_unextended_sp := f_unextended_sp (stream_frame ?cfs ?e)\<rparr>"
  from ts d obtain s1 caller s2 caller1 where
    t: "thaw_one_frame P ?cfs ?e ?s0 empty_frame (if rb then 1 else 2) True = Some (s1, caller)"
    and f: "finish_thaw P caller s1 = Some (s2, caller1)"
    and s': "s' = (cont_write s2)\<lparr>cont_fastpath :=
                (th_fastpath (cont_write s2) = 0 \<and> cont_fastpath_thread_state (cont_write s2))\<rparr>"
    by (auto simp: thaw_slow_def Let_def split: option.splits)
  have barA: "\<And>hf c' a. a \<in> ?A \<Longrightarrow> do_barriers_frame P hf c' a = mem c' a"
    using bar by auto
  from thaw_one_frame_rel [OF t barA] have rel: "tail_rel (thawed_hdr ?A ?cfs) ?s0 s1" by simp
  from d have rl: "r < length (heap s)" and hr: "heap s ! r = c" by (simp_all add: deref_Some_iff)
  from rel w rl hr have w1: "w_tail s1 = Some r" and l1: "length (heap s1) = length (heap s)"
    and th: "thawed_hdr ?A ?cfs c (heap s1 ! r)"
    and oth: "\<And>i. i < length (heap s) \<Longrightarrow> i \<noteq> r \<Longrightarrow> heap s1 ! i = heap s ! i"
    by (auto simp: tail_rel_def split: if_splits)
  let ?c1 = "heap s1 ! r"
  have d1: "deref s1 (Some r) = Some ?c1" using l1 rl by (simp add: deref_def)
  let ?c2 = "if is_empty ?c1 then
               (if barriers s1 \<or> is_gc_mode ?c1 then ?c1\<lparr>max_size := 0\<rparr>
                else ?c1\<lparr>has_mixed_frames := False, max_size := 0\<rparr>)
             else ?c1\<lparr>max_size := max_size ?c1 - fr_align_size s1\<rparr>"
  from f w1 d1 have h2: "heap s2 = (heap s1)[r := ?c2]"
    by (auto simp: finish_thaw_def Let_def store_def)
  have ok2: "pc_slot_ok P ?c2"
  proof (cases "is_empty ?c1")
    case True
    then show ?thesis by (simp add: pc_slot_ok_def is_empty_def)
  next
    case False
    with th obtain g where g: "g \<in> set ?cfs" "sp ?c1 = f_sp g" "pc ?c1 = f_pc g"
      by (auto simp: thawed_hdr_def)
    from th g(1) have "mem ?c1 (f_sp g - ?ro) = mem c (f_sp g - ?ro)"
      by (auto simp: thawed_hdr_def)
    with cur [OF g(1)] g(2,3) False show ?thesis by (simp add: pc_slot_ok_def is_empty_def)
  qed
  have i1: "heap_pc_ok P s1"
    unfolding heap_pc_ok_def
  proof (intro allI impI)
    fix i assume "i < length (heap s1)"
    then have i: "i < length (heap s)" using l1 by simp
    show "pc_slot_ok P (heap s1 ! i)"
    proof (cases "i = r")
      case True
      have "heap s1 = (heap s1)[r := ?c1]" by simp
      show ?thesis
      proof (cases "is_empty ?c1")
        case e: True
        with True show ?thesis by (simp add: pc_slot_ok_def)
      next
        case ne: False
        with ok2 True show ?thesis by (simp add: pc_slot_ok_def is_empty_def)
      qed
    next
      case False
      with oth [OF i] inv i show ?thesis by (simp add: heap_pc_ok_def)
    qed
  qed
  from heap_pc_ok_update [OF h2 i1 ok2] show ?thesis
    unfolding s' by (simp add: cont_write_def)
qed

lemma thaw_pc_ok:
  assumes th: "thaw P kind s = Some (n, s')" and inv: "heap_pc_ok P s"
      and cur: "\<And>c g. deref s (w_tail s) = Some c \<Longrightarrow> g \<in> set (chunk_frames P c) \<Longrightarrow>
                  f_pc g = mem c (f_sp g - sender_sp_ret_address_offset P)"
      and bar: "\<And>c hf c' g. deref s (w_tail s) = Some c \<Longrightarrow> g \<in> set (chunk_frames P c) \<Longrightarrow>
                  do_barriers_frame P hf c' (f_sp g - sender_sp_ret_address_offset P)
                    = mem c' (f_sp g - sender_sp_ret_address_offset P)"
  shows "heap_pc_ok P s'"
proof -
  from th obtain r where w: "w_tail s = Some r"
    by (cases "w_tail s") (simp_all add: thaw_def)
  with th obtain c where d: "deref s (Some r) = Some c"
    by (cases "deref s (Some r)") (simp_all add: thaw_def)
  let ?s1 = "s\<lparr>barriers := requires_barriers c\<rparr>"
  have i1: "heap_pc_ok P ?s1" using inv by simp
  have d1: "deref ?s1 (Some r) = Some c" "w_tail ?s1 = Some r" using d w by simp_all
  from th w d consider "thaw_fast P r ?s1 = Some (n, s')"
    | "thaw_slow P r (kind \<noteq> thaw_top) ?s1 = Some (n, s')"
    by (auto simp: thaw_def Let_def split: if_splits)
  then show ?thesis
  proof cases
    case 1
    from thaw_fast_pc_ok [OF 1 i1] show ?thesis .
  next
    case 2
    from d w have dw: "deref s (w_tail s) = Some c" by simp
    show ?thesis
      by (rule thaw_slow_pc_ok [OF 2 i1 d1(2) d1(1)]) (rule cur [OF dw], assumption, rule bar [OF dw])
  qed
qed


text \<open>
  C2.  Let every chunk of the heap satisfy the invariant: if it is not empty, the word at
  \<open>sp - 1\<close> (at \<open>sp\<close> minus the offset of the return address) is its \<open>pc\<close>.  Then
  so does every chunk after a freeze and after a thaw, whatever the path taken and the
  result.  The fast freeze and the fast thaw re-establish it from the words they copy and
  the \<open>sp\<close> and \<open>pc\<close> they set.  On the slow paths the invariant rests on platform
  code that is taken as a parameter: the freeze on \<^verbatim>\<open>set_top_frame_metadata_pd\<close>
  storing the top frame's pc in its return-pc slot, the thaw on the frame cursor reading
  a frame's pc from that slot, and both on the GC barriers leaving these slots alone.
  For the freeze the frozen region holds at least one word beyond the stack arguments,
  and the return address lies within the metadata words below a frame.
\<close>

theorem pc_slot_invariant:
  assumes "heap_pc_ok P s"
  shows "(0 < sender_sp_ret_address_offset P \<and>
          sender_sp_ret_address_offset P \<le> metadata_words P \<and>
          0 \<le> entry_argsize s \<and> entry_argsize s < cont_size P s frame_sp \<and>
          (\<forall>f m. set_top_frame_metadata_pd P f m (f_sp f - sender_sp_ret_address_offset P)
                   = f_pc f) \<and>
          (\<forall>c. do_barriers P c (sp c - sender_sp_ret_address_offset P)
                   = mem c (sp c - sender_sp_ret_address_offset P)) \<and>
          freeze_internal P frame_sp fs s = Some (res, s') \<longrightarrow> heap_pc_ok P s') \<and>
         ((\<forall>c g. deref s (cont_tail s) = Some c \<and> g \<in> set (chunk_frames P c) \<longrightarrow>
              f_pc g = mem c (f_sp g - sender_sp_ret_address_offset P) \<and>
              (\<forall>hf c'. do_barriers_frame P hf c' (f_sp g - sender_sp_ret_address_offset P)
                          = mem c' (f_sp g - sender_sp_ret_address_offset P))) \<and>
          thaw_internal P kind s = Some (n, t') \<longrightarrow> heap_pc_ok P t')"
proof (intro conjI impI)
  assume a: "0 < sender_sp_ret_address_offset P \<and>
          sender_sp_ret_address_offset P \<le> metadata_words P \<and>
          0 \<le> entry_argsize s \<and> entry_argsize s < cont_size P s frame_sp \<and>
          (\<forall>f m. set_top_frame_metadata_pd P f m (f_sp f - sender_sp_ret_address_offset P)
                   = f_pc f) \<and>
          (\<forall>c. do_barriers P c (sp c - sender_sp_ret_address_offset P)
                   = mem c (sp c - sender_sp_ret_address_offset P)) \<and>
          freeze_internal P frame_sp fs s = Some (res, s')"
  then have fi: "freeze_internal P frame_sp fs s = Some (res, s')" by simp
  show "heap_pc_ok P s'"
    by (rule freeze_internal_pc_ok [OF fi assms]) (use a in simp_all)
next
  assume a: "(\<forall>c g. deref s (cont_tail s) = Some c \<and> g \<in> set (chunk_frames P c) \<longrightarrow>
              f_pc g = mem c (f_sp g - sender_sp_ret_address_offset P) \<and>
              (\<forall>hf c'. do_barriers_frame P hf c' (f_sp g - sender_sp_ret_address_offset P)
                          = mem c' (f_sp g - sender_sp_ret_address_offset P))) \<and>
          thaw_internal P kind s = Some (n, t')"
  let ?s0 = "(open_wrapper s)\<lparr>th_fastpath := 0\<rparr>"
  from a obtain s1 where th: "thaw P kind ?s0 = Some (n, s1)"
    and t': "t' = s1\<lparr>held_monitor_count := 0\<rparr>"
    by (auto simp: thaw_internal_def split: option.splits)
  have h0: "heap ?s0 = heap s" "w_tail ?s0 = cont_tail s" by (simp_all add: open_wrapper_def)
  have d0: "deref (open_wrapper s) x = deref s x" for x
    by (cases x) (simp_all add: deref_def open_wrapper_def)
  have i0: "heap_pc_ok P ?s0" using assms h0(1) by (simp add: heap_pc_ok_def)
  have "heap_pc_ok P s1"
  proof (rule thaw_pc_ok [OF th i0])
    fix c g assume "deref ?s0 (w_tail ?s0) = Some c" "g \<in> set (chunk_frames P c)"
    with a show "f_pc g = mem c (f_sp g - sender_sp_ret_address_offset P)"
      by (auto simp: d0 h0)
  next
    fix c hf c' g assume "deref ?s0 (w_tail ?s0) = Some c" "g \<in> set (chunk_frames P c)"
    with a show "do_barriers_frame P hf c' (f_sp g - sender_sp_ret_address_offset P)
                    = mem c' (f_sp g - sender_sp_ret_address_offset P)"
      by (auto simp: d0 h0)
  qed
  then show "heap_pc_ok P t'" unfolding t' by simp
qed

theorem pc_slot_invariant_witness:
  "heap_pc_ok x86_64 vm1 \<and> entry_argsize vm1 < cont_size x86_64 vm1 88 \<and>
   (\<exists>s' c'. freeze_internal x86_64 88 [] vm1 = Some (0, s') \<and> heap_pc_ok x86_64 s' \<and>
       deref s' (Some 0) = Some c' \<and> sp c' = 24 \<and> pc c' = 623 \<and> mem c' 23 = 623) \<and>
   heap_pc_ok x86_64 vm6 \<and>
   (\<exists>n t' c'. thaw_internal x86_64 thaw_top vm6 = Some (n, t') \<and> heap_pc_ok x86_64 t' \<and>
       deref t' (Some 0) = Some c' \<and> sp c' = 610 \<and> pc c' = 0x1000 \<and> mem c' 609 = 0x1000)"
proof -
  have i1: "heap_pc_ok x86_64 vm1"
    by (simp add: heap_pc_ok_def pc_slot_ok_def vm1_def chunk1_def)
  have i6: "heap_pc_ok x86_64 vm6"
    by (simp add: heap_pc_ok_def pc_slot_ok_def vm6_def chunk6_def)
  have sz: "0 \<le> entry_argsize vm1" "entry_argsize vm1 < cont_size x86_64 vm1 88"
    by (simp_all add: cont_size_def cont_stack_bottom_def cont_stack_top_def vm1_def vm0_def)
  have pl: "\<forall>f m. set_top_frame_metadata_pd x86_64 f m (f_sp f - sender_sp_ret_address_offset x86_64)
                   = f_pc f"
    "\<forall>c. do_barriers x86_64 c (sp c - sender_sp_ret_address_offset x86_64)
                   = mem c (sp c - sender_sp_ret_address_offset x86_64)"
    by (simp_all add: x86_64_def)
  define s' where "s' = snd (the (freeze_internal x86_64 88 [] vm1))"
  have "map_option fst (freeze_internal x86_64 88 [] vm1) = Some 0" by code_simp
  then have f: "freeze_internal x86_64 88 [] vm1 = Some (0, s')"
    unfolding s'_def by (cases "freeze_internal x86_64 88 [] vm1") auto
  have fc: "map_option (\<lambda>c. (sp c, pc c, mem c 23)) (deref s' (Some 0)) = Some (24, 623, 623)"
    unfolding s'_def by code_simp
  from pc_slot_invariant [OF i1, where frame_sp = 88 and fs = "[]" and res = 0 and s' = s',
      THEN conjunct1] sz pl f
  have a: "heap_pc_ok x86_64 s'" by simp
  define t' where "t' = snd (the (thaw_internal x86_64 thaw_top vm6))"
  define n where "n = fst (the (thaw_internal x86_64 thaw_top vm6))"
  have "thaw_internal x86_64 thaw_top vm6 \<noteq> None" by code_simp
  then have th: "thaw_internal x86_64 thaw_top vm6 = Some (n, t')"
    unfolding t'_def n_def by auto
  have tc: "map_option (\<lambda>c. (sp c, pc c, mem c 609)) (deref t' (Some 0)) = Some (610, 0x1000, 0x1000)"
    unfolding t'_def by code_simp
  have cf: "chunk_frames x86_64 c = []" for c by (simp add: x86_64_def)
  from pc_slot_invariant [OF i6, where kind = thaw_top and n = n and t' = t', THEN conjunct2] th
  have b: "heap_pc_ok x86_64 t'" by (simp add: cf)
  from fc obtain c1 where c1: "deref s' (Some 0) = Some c1" "sp c1 = 24" "pc c1 = 623"
    "mem c1 23 = 623" by auto
  from tc obtain c2 where c2: "deref t' (Some 0) = Some c2" "sp c2 = 610" "pc c2 = 0x1000"
    "mem c2 609 = 0x1000" by auto
  from i1 i6 sz f a c1 th b c2 show ?thesis by blast
qed

end
